theory Spec2Isabelle
  imports Main "HOL-Library.Word"
begin

unbundle bit_operations_syntax

section \<open>MIDI drum set to keyboard converter: the model\<close>

text \<open>
  A shallow embedding of \<^verbatim>\<open>mididrumkeyboard.cpp\<close>. Every \<^verbatim>\<open>unsigned char\<close> of the
  source is an \<open>8 word\<close>; the C strings \<^verbatim>\<open>buf\<close> and \<^verbatim>\<open>strokeBuf\<close> are \<open>string\<close>s
  without their terminating NUL; the global arrays are lists; the mutable locals of
  \<^verbatim>\<open>main\<close> form the record \<open>state\<close>; the X events sent and the lines written to
  \<^verbatim>\<open>stderr\<close> are returned as a list of \<open>action\<close>s.
\<close>

type_synonym byte = "8 word"

subsection \<open>Constants (lines 21 to 39)\<close>

definition MIDI_NOTE_ON :: byte where "MIDI_NOTE_ON = 0x90"
definition MIDI_TICK :: byte where "MIDI_TICK = 0xf8"

definition STROKE_THRESHOLD :: byte where "STROKE_THRESHOLD = 0x05"
definition HIT_THRESHOLD :: byte where "HIT_THRESHOLD = 0x0f"
definition TICK_THRESHOLD :: nat where "TICK_THRESHOLD = 5"

definition BD :: byte where "BD = 0x21"
definition HHO :: byte where "HHO = 0x2e"
definition HHC :: byte where "HHC = 0x2a"
definition CRASH :: byte where "CRASH = 0x31"
definition SNARE :: byte where "SNARE = 0x28"
definition SIDETOM :: byte where "SIDETOM = 0x30"
definition RIDE :: byte where "RIDE = 0x3b"
definition FLOORTOM :: byte where "FLOORTOM = 0x2f"
definition HATFOOT :: byte where "HATFOOT = 0x2c"

subsection \<open>The pattern table (lines 41 to 112)\<close>

text \<open>
  The key symbols and \<^verbatim>\<open>ShiftMask\<close> come from the X11 headers, which are not part of
  the repository: the symbols have the values of \<^verbatim>\<open>X11/keysymdef.h\<close> (the Latin-1 code
  of the character, \<^verbatim>\<open>0xff08\<close> for BackSpace, \<^verbatim>\<open>0xff0d\<close> for Return), and
  \<^verbatim>\<open>ShiftMask\<close> is the bit \<^verbatim>\<open>1<<0\<close> of \<^verbatim>\<open>X11/X.h\<close>. No theorem below depends on
  these values beyond their being what the table holds.
\<close>

type_synonym keysym = int

definition XK_a :: keysym where "XK_a = 0x61"
definition XK_b :: keysym where "XK_b = 0x62"
definition XK_c :: keysym where "XK_c = 0x63"
definition XK_d :: keysym where "XK_d = 0x64"
definition XK_e :: keysym where "XK_e = 0x65"
definition XK_f :: keysym where "XK_f = 0x66"
definition XK_g :: keysym where "XK_g = 0x67"
definition XK_h :: keysym where "XK_h = 0x68"
definition XK_i :: keysym where "XK_i = 0x69"
definition XK_j :: keysym where "XK_j = 0x6a"
definition XK_k :: keysym where "XK_k = 0x6b"
definition XK_l :: keysym where "XK_l = 0x6c"
definition XK_m :: keysym where "XK_m = 0x6d"
definition XK_n :: keysym where "XK_n = 0x6e"
definition XK_o :: keysym where "XK_o = 0x6f"
definition XK_p :: keysym where "XK_p = 0x70"
definition XK_q :: keysym where "XK_q = 0x71"
definition XK_r :: keysym where "XK_r = 0x72"
definition XK_s :: keysym where "XK_s = 0x73"
definition XK_t :: keysym where "XK_t = 0x74"
definition XK_u :: keysym where "XK_u = 0x75"
definition XK_v :: keysym where "XK_v = 0x76"
definition XK_w :: keysym where "XK_w = 0x77"
definition XK_x :: keysym where "XK_x = 0x78"
definition XK_y :: keysym where "XK_y = 0x79"
definition XK_z :: keysym where "XK_z = 0x7a"
definition XK_A :: keysym where "XK_A = 0x41"
definition XK_B :: keysym where "XK_B = 0x42"
definition XK_C :: keysym where "XK_C = 0x43"
definition XK_D :: keysym where "XK_D = 0x44"
definition XK_E :: keysym where "XK_E = 0x45"
definition XK_F :: keysym where "XK_F = 0x46"
definition XK_G :: keysym where "XK_G = 0x47"
definition XK_H :: keysym where "XK_H = 0x48"
definition XK_I :: keysym where "XK_I = 0x49"
definition XK_J :: keysym where "XK_J = 0x4a"
definition XK_K :: keysym where "XK_K = 0x4b"
definition XK_L :: keysym where "XK_L = 0x4c"
definition XK_M :: keysym where "XK_M = 0x4d"
definition XK_N :: keysym where "XK_N = 0x4e"
definition XK_O :: keysym where "XK_O = 0x4f"
definition XK_P :: keysym where "XK_P = 0x50"
definition XK_Q :: keysym where "XK_Q = 0x51"
definition XK_R :: keysym where "XK_R = 0x52"
definition XK_S :: keysym where "XK_S = 0x53"
definition XK_T :: keysym where "XK_T = 0x54"
definition XK_U :: keysym where "XK_U = 0x55"
definition XK_V :: keysym where "XK_V = 0x56"
definition XK_W :: keysym where "XK_W = 0x57"
definition XK_X :: keysym where "XK_X = 0x58"
definition XK_Y :: keysym where "XK_Y = 0x59"
definition XK_Z :: keysym where "XK_Z = 0x5a"
definition XK_space :: keysym where "XK_space = 0x20"
definition XK_BackSpace :: keysym where "XK_BackSpace = 0xff08"
definition XK_period :: keysym where "XK_period = 0x2e"
definition XK_comma :: keysym where "XK_comma = 0x2c"
definition XK_exclam :: keysym where "XK_exclam = 0x21"
definition XK_semicolon :: keysym where "XK_semicolon = 0x3b"
definition XK_Return :: keysym where "XK_Return = 0xff0d"

definition ShiftMask :: int where "ShiftMask = 1"

record mapEntry =
  content :: string
  keycode :: keysym
  modifiers :: int

definition entry :: "string \<Rightarrow> keysym \<Rightarrow> int \<Rightarrow> mapEntry" where
  "entry c k m = \<lparr>content = c, keycode = k, modifiers = m\<rparr>"

text \<open>The array \<^verbatim>\<open>map\<close>; the two entries written without modifiers have modifiers 0.\<close>

definition map_table :: "mapEntry list" where
  "map_table = [
     entry ''RIDE.'' XK_a 0,
     entry ''RIDE.RIDE.'' XK_A ShiftMask,
     entry ''BD,SNARE.'' XK_b 0,
     entry ''BD,SNARE.BD,SNARE.'' XK_B ShiftMask,
     entry ''CRASH,SNARE.'' XK_c 0,
     entry ''CRASH,SNARE.CRASH,SNARE.'' XK_C ShiftMask,
     entry ''CRASH,SIDETOM.'' XK_d 0,
     entry ''CRASH,SIDETOM.CRASH,SIDETOM.'' XK_D ShiftMask,
     entry ''SNARE.'' XK_e 0,
     entry ''SNARE.SNARE.'' XK_E ShiftMask,
     entry ''BD,HATFOOT.'' XK_f 0,
     entry ''BD,HATFOOT.BD,HATFOOT.'' XK_F ShiftMask,
     entry ''BD,FLOORTOM.'' XK_g 0,
     entry ''BD,FLOORTOM.BD,FLOORTOM.'' XK_G ShiftMask,
     entry ''SNARE,SIDETOM.'' XK_h 0,
     entry ''SNARE,SIDETOM.SNARE,SIDETOM.'' XK_H ShiftMask,
     entry ''SIDETOM.'' XK_i 0,
     entry ''SIDETOM.SIDETOM.'' XK_I ShiftMask,
     entry ''FLOORTOM,HATFOOT.'' XK_j 0,
     entry ''FLOORTOM,HATFOOT.FLOORTOM,HATFOOT.'' XK_J ShiftMask,
     entry ''HH,FLOORTOM.'' XK_k 0,
     entry ''HH,FLOORTOM.HH,FLOORTOM.'' XK_K ShiftMask,
     entry ''BD,SIDETOM.'' XK_l 0,
     entry ''BD,SIDETOM.BD,SIDETOM.'' XK_L ShiftMask,
     entry ''HH,SNARE.'' XK_m 0,
     entry ''HH,SNARE.HH,SNARE.'' XK_M ShiftMask,
     entry ''FLOORTOM.'' XK_n 0,
     entry ''FLOORTOM.FLOORTOM.'' XK_N ShiftMask,
     entry ''CRASH.'' XK_o 0,
     entry ''CRASH.CRASH.'' XK_O ShiftMask,
     entry ''SNARE,FLOORTOM.'' XK_p 0,
     entry ''SNARE,FLOORTOM.SNARE,FLOORTOM.'' XK_P ShiftMask,
     entry ''BD,SNARE,HATFOOT.'' XK_q 0,
     entry ''BD,SNARE,HATFOOT.BD,SNARE,HATFOOT.'' XK_Q ShiftMask,
     entry ''HATFOOT.'' XK_r 0,
     entry ''HATFOOT.HATFOOT.'' XK_R ShiftMask,
     entry ''CRASH,RIDE.'' XK_s 0,
     entry ''CRASH,RIDE.CRASH,RIDE.'' XK_S ShiftMask,
     entry ''HH.'' XK_t 0,
     entry ''HH.HH.'' XK_T ShiftMask,
     entry ''HH,CRASH.'' XK_u 0,
     entry ''HH,CRASH.HH,CRASH.'' XK_U ShiftMask,
     entry ''BD,CRASH,RIDE.'' XK_v 0,
     entry ''BD,CRASH,RIDE.BD,CRASH,RIDE.'' XK_V ShiftMask,
     entry ''BD,HH,RIDE.'' XK_w 0,
     entry ''BD,HH,RIDE.BD,HH,RIDE.'' XK_W ShiftMask,
     entry ''RIDE,HATFOOT.'' XK_x 0,
     entry ''RIDE,HATFOOT.RIDE,HATFOOT.'' XK_X ShiftMask,
     entry ''BD,SNARE,FLOORTOM.'' XK_y 0,
     entry ''BD,SNARE,FLOORTOM.BD,SNARE,FLOORTOM.'' XK_Y ShiftMask,
     entry ''BD,SNARE,SIDETOM.'' XK_z 0,
     entry ''BD,SNARE,SIDETOM.BD,SNARE,SIDETOM.'' XK_Z ShiftMask,
     entry ''BD.'' XK_space 0,
     entry ''BD,CRASH.'' XK_BackSpace 0,
     entry ''SNARE,RIDE.'' XK_period 0,
     entry ''HH,RIDE.'' XK_comma 0,
     entry ''BD,RIDE.'' XK_exclam ShiftMask,
     entry ''SIDETOM,RIDE.'' XK_semicolon 0,
     entry ''BD,SNARE,RIDE.'' XK_Return 0,
     entry '''' 0 0]"

subsection \<open>The pads (lines 114 to 122)\<close>

definition drums :: "byte list" where
  "drums = [BD, HHO, HHC, CRASH, SNARE, SIDETOM, RIDE, FLOORTOM, HATFOOT]"

definition drumNames :: "string list" where
  "drumNames = [''BD'', ''HH'', ''HH'', ''CRASH'', ''SNARE'', ''SIDETOM'', ''RIDE'',
                ''FLOORTOM'', ''HATFOOT'']"

subsection \<open>\<^verbatim>\<open>handleSentence\<close> (lines 169 to 194)\<close>

text \<open>
  What the program sends out: an X key event (press or release, key symbol, modifier
  state) through \<^verbatim>\<open>XSendEvent\<close>, or a line on \<^verbatim>\<open>stderr\<close>.
\<close>

datatype action = XSendEvent bool keysym int | Stderr string

text \<open>
  The loop \<^verbatim>\<open>for (i=0; strlen(map[i].content); i++)\<close>: it stops at the first entry with
  an empty pattern, before comparing it, and returns the first entry that \<^verbatim>\<open>strcmp\<close>
  finds equal. The table ends with such an entry, so the end of the list is never read.
\<close>

fun scan_map :: "mapEntry list \<Rightarrow> string \<Rightarrow> mapEntry option" where
  "scan_map [] s = None"
| "scan_map (e # es) s =
     (if content e = [] then None
      else if s = content e then Some e
      else scan_map es s)"

definition handleSentence :: "string \<Rightarrow> bool \<times> action list" where
  "handleSentence s =
     (case scan_map map_table s of
        Some e \<Rightarrow> (True, [XSendEvent True (keycode e) (modifiers e),
                           XSendEvent False (keycode e) (modifiers e)])
      | None \<Rightarrow> (False, []))"

subsection \<open>\<^verbatim>\<open>handleStroke\<close> (lines 201 to 215)\<close>

text \<open>
  One round of the loop body: the pair is \<^verbatim>\<open>strokeBuf\<close> and the flag \<^verbatim>\<open>empty\<close>.
\<close>

definition stroke_step :: "byte list \<Rightarrow> nat \<Rightarrow> string \<times> bool \<Rightarrow> string \<times> bool" where
  "stroke_step velocities i acc =
     (case acc of (strokeBuf, is_empty) \<Rightarrow>
        if velocities ! i \<ge> STROKE_THRESHOLD
        then ((if \<not> is_empty then strokeBuf @ '','' else strokeBuf) @ drumNames ! i, False)
        else (strokeBuf, is_empty))"

definition stroke_loop :: "byte list \<Rightarrow> nat \<Rightarrow> string \<times> bool" where
  "stroke_loop velocities s = fold (stroke_step velocities) [0..<s] ([], True)"

definition handleStroke :: "byte list \<Rightarrow> nat \<Rightarrow> string" where
  "handleStroke velocities s = fst (stroke_loop velocities s) @ ''.''"

subsection \<open>The state of \<^verbatim>\<open>main\<close> and the tick (lines 241 to 278)\<close>

record state =
  velocities :: "byte list"
  buf :: string
  ticksSinceStroke :: byte

text \<open>
  \<^verbatim>\<open>velocities = malloc(sizeof(drums))\<close> is not followed by any initialisation, so the
  nine registers start with whatever the allocator hands out: \<open>heap\<close> is that content.
  \<^verbatim>\<open>buf[0] = 0\<close> and \<^verbatim>\<open>ticksSinceStroke = 0\<close> are set.
\<close>

definition initial_state :: "byte list \<Rightarrow> state" where
  "initial_state heap = \<lparr>velocities = take 9 heap, buf = [], ticksSinceStroke = 0\<rparr>"

text \<open>Lines 255 to 258: the loop that sets \<^verbatim>\<open>needsHandling\<close>.\<close>

definition needsHandling :: "byte list \<Rightarrow> bool" where
  "needsHandling vs =
     fold (\<lambda>i nh. if vs ! i div 2 < STROKE_THRESHOLD \<and> vs ! i \<ge> STROKE_THRESHOLD
                  then True else nh) [0..<length drums] False"

text \<open>Lines 259 to 265.\<close>

definition stroke_phase :: "state \<Rightarrow> state" where
  "stroke_phase st =
     (if needsHandling (velocities st)
      then st\<lparr>ticksSinceStroke := (if buf st = [] then 0 else ticksSinceStroke st),
              buf := buf st @ handleStroke (velocities st) (length drums),
              velocities := replicate (length drums) 0\<rparr>
      else st)"

text \<open>Lines 266 to 268.\<close>

definition halve_phase :: "state \<Rightarrow> state" where
  "halve_phase st = st\<lparr>velocities := map (\<lambda>v. v div 2) (velocities st)\<rparr>"

text \<open>
  Lines 270 to 277. The post-increment happens whatever the test says; the test reads
  the counter before it.
\<close>

definition flushes :: "state \<Rightarrow> bool" where
  "flushes st \<longleftrightarrow> unat (ticksSinceStroke st) > TICK_THRESHOLD \<and> buf st \<noteq> []"

definition timeout_phase :: "state \<Rightarrow> state \<times> action list" where
  "timeout_phase st =
     (if flushes st
      then (st\<lparr>buf := [], ticksSinceStroke := 0,
               velocities := replicate (length drums) 0\<rparr>,
            (case handleSentence (buf st) of
               (found, sent) \<Rightarrow>
                 sent @ (if \<not> found then [Stderr (''UNKNOWN SEQUENCE: '' @ buf st @ [CHR 0x0A])]
                         else [])))
      else (st\<lparr>ticksSinceStroke := ticksSinceStroke st + 1\<rparr>, []))"

definition tick :: "state \<Rightarrow> state \<times> action list" where
  "tick st = timeout_phase (halve_phase (stroke_phase st))"

subsection \<open>Note events (lines 285 to 289)\<close>

text \<open>
  \<^verbatim>\<open>strchr((char *)drums, key)\<close> is the test for a known pad. The array \<^verbatim>\<open>drums\<close> has
  nine bytes and no terminating NUL, so \<^verbatim>\<open>strchr\<close> reads on into whatever follows the
  array in memory until it finds the byte or a NUL. The first argument of \<open>strchr\<close> below
  is the memory from the start pointer up to the first NUL byte (the end of the list
  stands for that NUL when the list has none); the result is the offset of the pointer that
  C returns, \<open>None\<close> for the null pointer. As in C, each byte is compared with the searched
  one before it is tested for the terminator, so a search for 0 finds the terminator.
\<close>

fun strchr :: "byte list \<Rightarrow> byte \<Rightarrow> nat \<Rightarrow> nat option" where
  "strchr [] c n = (if c = 0 then Some n else None)"
| "strchr (b # bs) c n =
     (if b = c then Some n else if b = 0 then None else strchr bs c (Suc n))"

text \<open>
  \<^verbatim>\<open>velocities[c - drums] = velocity\<close>: the block \<^verbatim>\<open>velocities\<close> has \<^verbatim>\<open>sizeof(drums)\<close>
  bytes, and a store at a larger offset is outside it. The model stops there with a fault
  instead of guessing what the store hits. \<open>behind\<close> is the memory that follows \<^verbatim>\<open>drums\<close>.
\<close>

datatype fault = WriteOutOfBounds nat

definition note_event :: "byte list \<Rightarrow> state \<Rightarrow> byte \<Rightarrow> byte \<Rightarrow> fault + state" where
  "note_event behind st key velocity =
     (if velocity \<ge> HIT_THRESHOLD
      then (case strchr (drums @ behind) key 0 of
              None \<Rightarrow> Inr st
            | Some k \<Rightarrow>
                if k < length drums
                then Inr (st\<lparr>velocities := (velocities st)[k := velocity]\<rparr>)
                else Inl (WriteOutOfBounds k))
      else Inr st)"

subsection \<open>The decode loop (lines 250 to 290)\<close>

text \<open>
  The loop over a recorded input: each \<^verbatim>\<open>read\<close> takes the next byte of the list. A byte
  equal to \<^verbatim>\<open>MIDI_TICK\<close> runs the tick; its high nibble is not that of \<^verbatim>\<open>MIDI_NOTE_ON\<close>,
  so the inner loop goes on. A byte with the high nibble of \<^verbatim>\<open>MIDI_NOTE_ON\<close> leaves the
  inner loop and the next two bytes are the key and the velocity. Any other byte is
  skipped. The model ends where the recording ends (the program would block in
  \<^verbatim>\<open>read\<close> until the signal handler sets \<^verbatim>\<open>stop\<close>); a note message cut off by the end of
  the recording is dropped.
\<close>

definition emit :: "action list \<Rightarrow> fault + state \<times> action list \<Rightarrow> fault + state \<times> action list"
  where
  "emit out r = (case r of Inl f \<Rightarrow> Inl f | Inr (st, out') \<Rightarrow> Inr (st, out @ out'))"

fun decode :: "byte list \<Rightarrow> state \<Rightarrow> byte list \<Rightarrow> fault + state \<times> action list" where
  "decode behind st [] = Inr (st, [])"
| "decode behind st (ch # input) =
     (if ch = MIDI_TICK
      then (case tick st of (st', out) \<Rightarrow> emit out (decode behind st' input))
      else if ch AND 0xf0 = MIDI_NOTE_ON
      then (case input of
              key # velocity # rest \<Rightarrow>
                (case note_event behind st key velocity of
                   Inl f \<Rightarrow> Inl f
                 | Inr st' \<Rightarrow> decode behind st' rest)
            | _ \<Rightarrow> Inr (st, []))
      else decode behind st input)"

subsection \<open>Observing the chords\<close>

text \<open>
  The chord that a tick appends to \<^verbatim>\<open>buf\<close>, if any, and the chords appended by \<open>n\<close>
  ticks in a row with no note event between them.
\<close>

definition tick_chord :: "state \<Rightarrow> string list" where
  "tick_chord st =
     (if needsHandling (velocities st) then [handleStroke (velocities st) (length drums)]
      else [])"

fun chords :: "nat \<Rightarrow> state \<Rightarrow> string list" where
  "chords 0 st = []"
| "chords (Suc n) st = tick_chord st @ chords n (fst (tick st))"

fun ticks :: "nat \<Rightarrow> state \<Rightarrow> state" where
  "ticks 0 st = st"
| "ticks (Suc n) st = ticks n (fst (tick st))"

text \<open>Joining names with a separator, for stating what \<open>handleStroke\<close> returns.\<close>

fun join :: "string \<Rightarrow> string list \<Rightarrow> string" where
  "join sep [] = []"
| "join sep [x] = x"
| "join sep (x # y # ys) = x @ sep @ join sep (y # ys)"

text \<open>
  The names of the pads among \<open>idx\<close> whose register is at least the stroke threshold,
  in the order of \<open>idx\<close>.
\<close>

definition struck :: "byte list \<Rightarrow> nat list \<Rightarrow> string list" where
  "struck vs idx = map (\<lambda>i. drumNames ! i) (filter (\<lambda>i. vs ! i \<ge> STROKE_THRESHOLD) idx)"

text \<open>
  The invariant that keeps the sentence short: it is empty, or the counter is between 1
  and 6 and the sentence has at most 52 characters for each tick counted.
\<close>

definition sentence_bounded :: "state \<Rightarrow> bool" where
  "sentence_bounded st \<longleftrightarrow>
     buf st = [] \<or>
     (1 \<le> unat (ticksSinceStroke st) \<and> unat (ticksSinceStroke st) \<le> 6 \<and>
      length (buf st) \<le> 52 * unat (ticksSinceStroke st))"

text \<open>
  For stating when a strike becomes a chord. \<open>halvings v\<close> is the number of ticks that
  halve a register of value \<open>v\<close> (at least the stroke threshold) before the tick that
  finds it in the window from 5 to 9, where its half is below the threshold.
  \<open>quiet_for k vs\<close> says that registers \<open>vs\<close>, left alone, make \<open>k\<close> ticks without a
  chord and make the next tick find one.
\<close>

definition halvings :: "byte \<Rightarrow> nat" where
  "halvings v =
     (if v < 10 then 0 else if v < 20 then 1 else if v < 40 then 2
      else if v < 80 then 3 else if v < 160 then 4 else 5)"

primrec quiet_for :: "nat \<Rightarrow> byte list \<Rightarrow> bool" where
  "quiet_for 0 vs \<longleftrightarrow> needsHandling vs"
| "quiet_for (Suc k) vs \<longleftrightarrow> \<not> needsHandling vs \<and> quiet_for k (map (\<lambda>v. v div 2) vs)"

section \<open>Properties\<close>

lemmas pad_defs =
  BD_def HHO_def HHC_def CRASH_def SNARE_def SIDETOM_def RIDE_def FLOORTOM_def HATFOOT_def

subsection \<open>The loops as folds\<close>

lemma flag_fold:
  "fold (\<lambda>i nh. if P i then True else nh) xs b \<longleftrightarrow> b \<or> (\<exists>i\<in>set xs. P i)"
  by (induction xs arbitrary: b) auto

lemma needsHandling_iff:
  "needsHandling vs \<longleftrightarrow>
     (\<exists>i<length drums. vs ! i div 2 < STROKE_THRESHOLD \<and> vs ! i \<ge> STROKE_THRESHOLD)"
  unfolding needsHandling_def flag_fold by auto

lemma join_Cons: "join sep (x # xs) = (if xs = [] then x else x @ sep @ join sep xs)"
  by (cases xs) auto

lemma struck_Cons:
  "struck vs (i # idx) =
     (if vs ! i \<ge> STROKE_THRESHOLD then drumNames ! i # struck vs idx else struck vs idx)"
  by (simp add: struck_def)

lemma stroke_step_pair:
  "stroke_step vs i (sb, e) =
     (if vs ! i \<ge> STROKE_THRESHOLD
      then ((if \<not> e then sb @ '','' else sb) @ drumNames ! i, False)
      else (sb, e))"
  by (simp add: stroke_step_def)

lemma stroke_fold:
  "fold (stroke_step vs) idx (sb, e) =
     (if struck vs idx = [] then (sb, e)
      else (sb @ (if e then [] else '','') @ join '','' (struck vs idx), False))"
proof (induction idx arbitrary: sb e)
  case Nil
  then show ?case by (simp add: struck_def)
next
  case (Cons i idx)
  show ?case
    by (simp add: Cons.IH struck_Cons stroke_step_pair join_Cons)
qed

lemma handleStroke_eq:
  "handleStroke vs s = join '','' (struck vs [0..<s]) @ ''.''"
  by (simp add: handleStroke_def stroke_loop_def stroke_fold)

lemma length_drums: "length drums = 9"
  by (simp add: drums_def)

subsection \<open>Halving a byte\<close>

lemma halve_keeps_low: "(v :: byte) < STROKE_THRESHOLD \<Longrightarrow> v div 2 < STROKE_THRESHOLD"
  by (simp add: STROKE_THRESHOLD_def word_less_nat_alt unat_div)

lemma halve_ge: "STROKE_THRESHOLD \<le> (v :: byte) div 2 \<Longrightarrow> STROKE_THRESHOLD \<le> v"
  by (simp add: STROKE_THRESHOLD_def word_le_nat_alt unat_div)

subsection \<open>The phases of a tick\<close>

lemma flushes_iff:
  "flushes (halve_phase (stroke_phase st)) \<longleftrightarrow>
     buf st \<noteq> [] \<and> TICK_THRESHOLD < unat (ticksSinceStroke st)"
  by (simp add: flushes_def halve_phase_def stroke_phase_def TICK_THRESHOLD_def)

lemma tick_velocities:
  "velocities (fst (tick st)) =
     (if needsHandling (velocities st) \<or>
         (buf st \<noteq> [] \<and> TICK_THRESHOLD < unat (ticksSinceStroke st))
      then replicate (length drums) 0
      else map (\<lambda>v. v div 2) (velocities st))"
  by (simp add: tick_def timeout_phase_def flushes_iff)
     (simp add: halve_phase_def stroke_phase_def)

lemma tick_length:
  "length (velocities st) = length drums \<Longrightarrow>
     length (velocities (fst (tick st))) = length drums"
  by (simp add: tick_velocities)

lemma struck_cong:
  "(\<And>i. i \<in> set idx \<Longrightarrow> (STROKE_THRESHOLD \<le> vs ! i) = (STROKE_THRESHOLD \<le> ws ! i))
   \<Longrightarrow> struck vs idx = struck ws idx"
  unfolding struck_def by (rule arg_cong [where f = "map _"]) (rule filter_cong, auto)

lemma struck_halved:
  assumes len: "length vs = length drums" and nh: "\<not> needsHandling vs"
  shows "struck (map (\<lambda>v. v div 2) vs) [0..<length drums] = struck vs [0..<length drums]"
proof (rule struck_cong)
  fix i assume "i \<in> set [0..<length drums]"
  then have i: "i < length drums" by simp
  with nh have w: "\<not> (vs ! i div 2 < STROKE_THRESHOLD \<and> STROKE_THRESHOLD \<le> vs ! i)"
    by (auto simp: needsHandling_iff)
  then have "(STROKE_THRESHOLD \<le> vs ! i div 2) = (STROKE_THRESHOLD \<le> vs ! i)"
    using halve_ge [of "vs ! i"] by (auto simp: not_less)
  with i len
  show "(STROKE_THRESHOLD \<le> map (\<lambda>v. v div 2) vs ! i) = (STROKE_THRESHOLD \<le> vs ! i)"
    by simp
qed

lemma struck_zero: "struck (replicate n 0) [0..<n] = []"
  by (simp add: struck_def STROKE_THRESHOLD_def filter_empty_conv)

lemma needsHandling_zero: "\<not> needsHandling (replicate (length drums) 0)"
  by (simp add: needsHandling_iff STROKE_THRESHOLD_def)

lemma tick_chord_zero:
  "velocities st = replicate (length drums) 0 \<Longrightarrow> tick_chord st = []"
  by (simp add: tick_chord_def needsHandling_zero)

lemma tick_zero:
  "velocities st = replicate (length drums) 0 \<Longrightarrow>
     velocities (fst (tick st)) = replicate (length drums) 0"
  by (simp add: tick_velocities needsHandling_zero)

lemma chords_zero:
  "velocities st = replicate (length drums) 0 \<Longrightarrow> chords n st = []"
  by (induction n arbitrary: st) (simp_all add: tick_chord_zero tick_zero)

lemma chords_at_most_one:
  "length (velocities st) = length drums \<Longrightarrow>
     chords n st = [] \<or>
     chords n st = [join '','' (struck (velocities st) [0..<length drums]) @ ''.'']"
proof (induction n arbitrary: st)
  case 0
  then show ?case by simp
next
  case (Suc n)
  show ?case
  proof (cases "needsHandling (velocities st)")
    case True
    then have "velocities (fst (tick st)) = replicate (length drums) 0"
      by (simp add: tick_velocities)
    then have "chords n (fst (tick st)) = []" by (rule chords_zero)
    with True show ?thesis by (simp add: tick_chord_def handleStroke_eq)
  next
    case nh: False
    show ?thesis
    proof (cases "buf st \<noteq> [] \<and> TICK_THRESHOLD < unat (ticksSinceStroke st)")
      case True
      then have "velocities (fst (tick st)) = replicate (length drums) 0"
        by (simp add: tick_velocities)
      then have "chords n (fst (tick st)) = []" by (rule chords_zero)
      with nh show ?thesis by (simp add: tick_chord_def)
    next
      case False
      with nh have v: "velocities (fst (tick st)) = map (\<lambda>v. v div 2) (velocities st)"
        by (auto simp: tick_velocities)
      from Suc.prems have "length (velocities (fst (tick st))) = length drums"
        by (rule tick_length)
      from Suc.IH [OF this] nh show ?thesis
        by (simp add: tick_chord_def v struck_halved [OF Suc.prems nh])
    qed
  qed
qed

subsection \<open>Chords\<close>

lemma names_nonempty: "i < length drums \<Longrightarrow> drumNames ! i \<noteq> []"
proof -
  assume "i < length drums"
  then have "i < length drumNames"
    by (simp add: drums_def drumNames_def)
  then have "drumNames ! i \<in> set drumNames"
    by (rule nth_mem)
  moreover have "[] \<notin> set drumNames"
    by (simp add: drumNames_def)
  ultimately show ?thesis by metis
qed

lemma struck_first:
  assumes "needsHandling vs"
  shows "\<exists>i rest. i < length drums \<and> STROKE_THRESHOLD \<le> vs ! i \<and>
           struck vs [0..<length drums] = drumNames ! i # rest"
proof -
  from assms obtain j where j: "j < length drums" "STROKE_THRESHOLD \<le> vs ! j"
    by (auto simp: needsHandling_iff)
  then have "j \<in> set (filter (\<lambda>i. STROKE_THRESHOLD \<le> vs ! i) [0..<length drums])"
    by simp
  then obtain i is' where
    f: "filter (\<lambda>i. STROKE_THRESHOLD \<le> vs ! i) [0..<length drums] = i # is'"
    by (cases "filter (\<lambda>i. STROKE_THRESHOLD \<le> vs ! i) [0..<length drums]") auto
  then have "i \<in> set (filter (\<lambda>i. STROKE_THRESHOLD \<le> vs ! i) [0..<length drums])"
    by simp
  then have "i < length drums" "STROKE_THRESHOLD \<le> vs ! i" by auto
  with f show ?thesis by (auto simp: struck_def)
qed

text \<open>
  C10. Whenever the tick finds that a chord is due (\<open>needsHandling\<close>), some pad passes
  the test of \<^verbatim>\<open>handleStroke\<close>: the chord text starts with the name of such a pad, the
  flag \<^verbatim>\<open>empty\<close> is cleared at the end of the loop, and the text is never the bare period.
\<close>

theorem C10_chord_names_a_pad:
  assumes "needsHandling vs"
  shows "(\<exists>i<length drums. STROKE_THRESHOLD \<le> vs ! i \<and>
            (\<exists>rest. handleStroke vs (length drums) = drumNames ! i @ rest))
         \<and> snd (stroke_loop vs (length drums)) = False
         \<and> handleStroke vs (length drums) \<noteq> ''.''"
proof -
  from struck_first [OF assms] obtain i rest where
    i: "i < length drums" "STROKE_THRESHOLD \<le> vs ! i" and
    s: "struck vs [0..<length drums] = drumNames ! i # rest"
    by blast
  have h: "handleStroke vs (length drums) =
             drumNames ! i @ (if rest = [] then [] else '','' @ join '','' rest) @ ''.''"
    by (simp add: handleStroke_eq s join_Cons)
  obtain c cs where n: "drumNames ! i = c # cs"
    using names_nonempty [OF i(1)] by (cases "drumNames ! i") auto
  have "handleStroke vs (length drums) \<noteq> ''.''"
    by (simp add: h n)
  moreover have "snd (stroke_loop vs (length drums)) = False"
    by (simp add: stroke_loop_def stroke_fold s)
  ultimately show ?thesis using i h by blast
qed

theorem C10_chord_names_a_pad_witness:
  "needsHandling [7, 0, 0, 0, 200, 0, 0, 0, 0] \<and>
   handleStroke [7, 0, 0, 0, 200, 0, 0, 0, 0] (length drums) \<noteq> ''.''"
proof -
  have h: "needsHandling [7, 0, 0, 0, 200, 0, 0, 0, 0]"
    by code_simp
  from C10_chord_names_a_pad [OF h] h show ?thesis by simp
qed

subsection \<open>Ticks\<close>

lemma stroke_phase_buf: "buf (stroke_phase st) = buf st @ concat (tick_chord st)"
  by (simp add: stroke_phase_def tick_chord_def)

lemma tick_chord_eq:
  "tick_chord st =
     (if needsHandling (velocities st)
      then [join '','' (struck (velocities st) [0..<length drums]) @ ''.'']
      else [])"
  by (simp add: tick_chord_def handleStroke_eq)

text \<open>
  C1. A tick emits a chord exactly when some register is at least the stroke threshold
  while its half is below it; the chord names, in the order of the pads, exactly the pads
  whose register is at least the threshold, and is appended to the sentence; emitting a
  chord zeroes all nine registers; then every register is halved, chord or not (the
  halving of a byte is the integer division of its value by 2), and that is the value the
  tick leaves unless the sentence is flushed in the same tick.
\<close>

theorem C1_tick_chord_and_decay:
  "(tick_chord st \<noteq> [] \<longleftrightarrow>
      (\<exists>i<length drums. STROKE_THRESHOLD \<le> velocities st ! i \<and>
                          velocities st ! i div 2 < STROKE_THRESHOLD))
   \<and> tick_chord st =
       (if tick_chord st \<noteq> []
        then [join '','' (map (\<lambda>i. drumNames ! i)
                (filter (\<lambda>i. STROKE_THRESHOLD \<le> velocities st ! i) [0..<length drums]))
              @ ''.'']
        else [])
   \<and> buf (stroke_phase st) = buf st @ concat (tick_chord st)
   \<and> (tick_chord st \<noteq> [] \<longrightarrow>
        velocities (stroke_phase st) = replicate (length drums) 0 \<and>
        velocities (fst (tick st)) = replicate (length drums) 0)
   \<and> (tick_chord st = [] \<longrightarrow> velocities (stroke_phase st) = velocities st)
   \<and> velocities (halve_phase (stroke_phase st)) =
       map (\<lambda>v. v div 2) (velocities (stroke_phase st))
   \<and> (\<not> flushes (halve_phase (stroke_phase st)) \<longrightarrow>
        velocities (fst (tick st)) = map (\<lambda>v. v div 2) (velocities (stroke_phase st)))
   \<and> (\<forall>v :: byte. unat (v div 2) = unat v div 2)"
proof -
  have c: "tick_chord st \<noteq> [] \<longleftrightarrow> needsHandling (velocities st)"
    by (simp add: tick_chord_def)
  have 1: "tick_chord st \<noteq> [] \<longleftrightarrow>
      (\<exists>i<length drums. STROKE_THRESHOLD \<le> velocities st ! i \<and>
                          velocities st ! i div 2 < STROKE_THRESHOLD)"
    unfolding c needsHandling_iff by blast
  have 2: "tick_chord st =
       (if tick_chord st \<noteq> []
        then [join '','' (map (\<lambda>i. drumNames ! i)
                (filter (\<lambda>i. STROKE_THRESHOLD \<le> velocities st ! i) [0..<length drums]))
              @ ''.'']
        else [])"
    unfolding c by (simp add: tick_chord_eq struck_def)
  have 4: "tick_chord st \<noteq> [] \<longrightarrow>
        velocities (stroke_phase st) = replicate (length drums) 0 \<and>
        velocities (fst (tick st)) = replicate (length drums) 0"
    unfolding c by (simp add: tick_velocities) (simp add: stroke_phase_def)
  have 5: "tick_chord st = [] \<longrightarrow> velocities (stroke_phase st) = velocities st"
    by (simp add: tick_chord_def stroke_phase_def split: if_splits)
  have 6: "velocities (halve_phase (stroke_phase st)) =
       map (\<lambda>v. v div 2) (velocities (stroke_phase st))"
    by (simp add: halve_phase_def)
  have 7: "\<not> flushes (halve_phase (stroke_phase st)) \<longrightarrow>
        velocities (fst (tick st)) = map (\<lambda>v. v div 2) (velocities (stroke_phase st))"
    by (simp add: tick_def timeout_phase_def) (simp add: halve_phase_def)
  have 8: "\<forall>v :: byte. unat (v div 2) = unat v div 2"
    by (simp add: unat_div)
  from 1 2 stroke_phase_buf 4 5 6 7 8 show ?thesis by blast
qed

theorem C1_tick_chord_and_decay_witness:
  "tick_chord \<lparr>velocities = [7, 0, 0, 0, 200, 0, 3, 0, 0], buf = ''RIDE.'', ticksSinceStroke = 2\<rparr>
     = [''BD,SNARE.'']
   \<and> velocities (fst (tick \<lparr>velocities = [7, 0, 0, 0, 200, 0, 3, 0, 0], buf = ''RIDE.'',
                              ticksSinceStroke = 2\<rparr>))
     = [0, 0, 0, 0, 0, 0, 0, 0, 0]
   \<and> tick_chord \<lparr>velocities = [17, 0, 0, 0, 200, 0, 3, 0, 0], buf = [], ticksSinceStroke = 2\<rparr>
     = []
   \<and> velocities (fst (tick \<lparr>velocities = [17, 0, 0, 0, 200, 0, 3, 0, 0], buf = [],
                              ticksSinceStroke = 2\<rparr>))
     = [8, 0, 0, 0, 100, 0, 1, 0, 0]"
proof -
  let ?s = "\<lparr>velocities = [7, 0, 0, 0, 200, 0, 3, 0, 0], buf = ''RIDE.'', ticksSinceStroke = 2\<rparr>"
  let ?t = "\<lparr>velocities = [17, 0, 0, 0, 200, 0, 3, 0, 0], buf = [], ticksSinceStroke = 2\<rparr>"
  have s: "tick_chord ?s = [''BD,SNARE.'']"
    by code_simp
  then have "tick_chord ?s \<noteq> []"
    by simp
  with C1_tick_chord_and_decay [of ?s]
  have "velocities (fst (tick ?s)) = replicate (length drums) 0"
    by blast
  then have s': "velocities (fst (tick ?s)) = [0, 0, 0, 0, 0, 0, 0, 0, 0]"
    by (simp add: drums_def)
  have t: "tick_chord ?t = []"
    by code_simp
  have nf: "\<not> flushes (halve_phase (stroke_phase ?t))"
    by (simp add: flushes_iff)
  from t C1_tick_chord_and_decay [of ?t] have "velocities (stroke_phase ?t) = velocities ?t"
    by blast
  moreover from nf C1_tick_chord_and_decay [of ?t]
  have "velocities (fst (tick ?t)) = map (\<lambda>v. v div 2) (velocities (stroke_phase ?t))"
    by blast
  ultimately have t': "velocities (fst (tick ?t)) = [8, 0, 0, 0, 100, 0, 1, 0, 0]"
    by simp
  from s s' t t' show ?thesis by blast
qed

subsection \<open>The silence counter and the flush\<close>

lemma tick_flush:
  "flushes (halve_phase (stroke_phase st)) \<Longrightarrow>
     tick st =
       (\<lparr>velocities = replicate (length drums) 0, buf = [], ticksSinceStroke = 0\<rparr>,
        (case scan_map map_table (buf (stroke_phase st)) of
           Some e \<Rightarrow> [XSendEvent True (keycode e) (modifiers e),
                      XSendEvent False (keycode e) (modifiers e)]
         | None \<Rightarrow> [Stderr (''UNKNOWN SEQUENCE: '' @ buf (stroke_phase st) @ [CHR 0x0A])]))"
  by (simp add: tick_def timeout_phase_def handleSentence_def halve_phase_def
           split: option.splits)

lemma tick_no_flush:
  "\<not> flushes (halve_phase (stroke_phase st)) \<Longrightarrow>
     tick st =
       (\<lparr>velocities = map (\<lambda>v. v div 2) (velocities (stroke_phase st)),
         buf = buf (stroke_phase st),
         ticksSinceStroke = ticksSinceStroke (stroke_phase st) + 1\<rparr>, [])"
  by (simp add: tick_def timeout_phase_def halve_phase_def)

text \<open>
  C5. The sentence is flushed in a tick exactly when it is not empty and the counter is
  above the tick threshold; this is so whether the two are read before the tick or at
  the test of line 270, after a chord of the same tick was appended. A flush empties the
  sentence and zeroes the counter and the nine registers, whether the sentence is found in
  the table (the key is pressed and released) or not (the sentence is written to
  \<^verbatim>\<open>stderr\<close>, and the loop goes on). A tick without flush sends and prints nothing.
\<close>

theorem C5_flush:
  "(flushes (halve_phase (stroke_phase st)) \<longleftrightarrow>
      buf st \<noteq> [] \<and> TICK_THRESHOLD < unat (ticksSinceStroke st))
   \<and> (flushes (halve_phase (stroke_phase st)) \<longleftrightarrow>
        buf (stroke_phase st) \<noteq> [] \<and> TICK_THRESHOLD < unat (ticksSinceStroke (stroke_phase st)))
   \<and> (flushes (halve_phase (stroke_phase st)) \<longrightarrow>
        fst (tick st) =
          \<lparr>velocities = replicate (length drums) 0, buf = [], ticksSinceStroke = 0\<rparr> \<and>
        snd (tick st) =
          (case scan_map map_table (buf (stroke_phase st)) of
             Some e \<Rightarrow> [XSendEvent True (keycode e) (modifiers e),
                        XSendEvent False (keycode e) (modifiers e)]
           | None \<Rightarrow> [Stderr (''UNKNOWN SEQUENCE: '' @ buf (stroke_phase st) @ [CHR 0x0A])]))
   \<and> (\<not> flushes (halve_phase (stroke_phase st)) \<longrightarrow>
        snd (tick st) = [] \<and> buf (fst (tick st)) = buf (stroke_phase st))"
proof -
  have "flushes (halve_phase (stroke_phase st)) \<longleftrightarrow>
        buf (stroke_phase st) \<noteq> [] \<and> TICK_THRESHOLD < unat (ticksSinceStroke (stroke_phase st))"
    by (simp add: flushes_def halve_phase_def conj_commute)
  moreover have "flushes (halve_phase (stroke_phase st)) \<longrightarrow>
        fst (tick st) =
          \<lparr>velocities = replicate (length drums) 0, buf = [], ticksSinceStroke = 0\<rparr> \<and>
        snd (tick st) =
          (case scan_map map_table (buf (stroke_phase st)) of
             Some e \<Rightarrow> [XSendEvent True (keycode e) (modifiers e),
                        XSendEvent False (keycode e) (modifiers e)]
           | None \<Rightarrow> [Stderr (''UNKNOWN SEQUENCE: '' @ buf (stroke_phase st) @ [CHR 0x0A])])"
    by (simp add: tick_flush)
  moreover have "\<not> flushes (halve_phase (stroke_phase st)) \<longrightarrow>
        snd (tick st) = [] \<and> buf (fst (tick st)) = buf (stroke_phase st)"
    by (simp add: tick_no_flush)
  ultimately show ?thesis using flushes_iff [of st] by blast
qed

theorem C5_flush_witness:
  "fst (tick \<lparr>velocities = [0, 0, 0, 0, 0, 0, 9, 0, 0], buf = ''HH,HH.'', ticksSinceStroke = 6\<rparr>)
     = \<lparr>velocities = [0, 0, 0, 0, 0, 0, 0, 0, 0], buf = [], ticksSinceStroke = 0\<rparr>
   \<and> snd (tick \<lparr>velocities = [0, 0, 0, 0, 0, 0, 9, 0, 0], buf = ''HH,HH.'',
                 ticksSinceStroke = 6\<rparr>)
     = [Stderr ''UNKNOWN SEQUENCE: HH,HH.RIDE.\<newline>'']
   \<and> snd (tick \<lparr>velocities = [0, 0, 0, 0, 0, 0, 9, 0, 0], buf = ''HH,HH.'',
                 ticksSinceStroke = 5\<rparr>) = []"
proof -
  let ?s = "\<lparr>velocities = [0, 0, 0, 0, 0, 0, 9, 0, 0], buf = ''HH,HH.'', ticksSinceStroke = 6\<rparr>"
  let ?t = "\<lparr>velocities = [0, 0, 0, 0, 0, 0, 9, 0, 0], buf = ''HH,HH.'', ticksSinceStroke = 5\<rparr>"
  have "buf ?s \<noteq> [] \<and> TICK_THRESHOLD < unat (ticksSinceStroke ?s)"
    by (simp add: TICK_THRESHOLD_def)
  with C5_flush [of ?s] have
    "fst (tick ?s) = \<lparr>velocities = replicate (length drums) 0, buf = [], ticksSinceStroke = 0\<rparr> \<and>
     snd (tick ?s) =
       (case scan_map map_table (buf (stroke_phase ?s)) of
          Some e \<Rightarrow> [XSendEvent True (keycode e) (modifiers e),
                     XSendEvent False (keycode e) (modifiers e)]
        | None \<Rightarrow> [Stderr (''UNKNOWN SEQUENCE: '' @ buf (stroke_phase ?s) @ [CHR 0x0A])])"
    by blast
  moreover have "buf (stroke_phase ?s) = ''HH,HH.RIDE.''"
    by code_simp
  moreover have "scan_map map_table ''HH,HH.RIDE.'' = None"
    by code_simp
  ultimately have s: "fst (tick ?s) = \<lparr>velocities = [0, 0, 0, 0, 0, 0, 0, 0, 0], buf = [],
      ticksSinceStroke = 0\<rparr> \<and> snd (tick ?s) = [Stderr ''UNKNOWN SEQUENCE: HH,HH.RIDE.\<newline>'']"
    by (simp add: drums_def)
  have "\<not> (buf ?t \<noteq> [] \<and> TICK_THRESHOLD < unat (ticksSinceStroke ?t))"
    by (simp add: TICK_THRESHOLD_def)
  with C5_flush [of ?t] have "snd (tick ?t) = []"
    by blast
  with s show ?thesis by blast
qed

text \<open>
  C2 as stated fails. From zeroed registers, RIDE is struck with force 15 and two ticks
  pass, then BD is struck with force 15 and one tick passes: the sentence is \<open>RIDE.\<close> and
  the counter is 2. The next tick appends the chord \<open>BD.\<close> and, the sentence not being
  empty, does not reset the counter: it is still 2 after the append and 3 after the tick.
\<close>

theorem C2_counter_not_reset_counterexample:
  "decode [] (initial_state [0, 0, 0, 0, 0, 0, 0, 0, 0])
          [0x90, RIDE, 15, MIDI_TICK, MIDI_TICK, 0x90, BD, 15, MIDI_TICK]
     = Inr (\<lparr>velocities = [7, 0, 0, 0, 0, 0, 0, 0, 0], buf = ''RIDE.'', ticksSinceStroke = 2\<rparr>, [])
   \<and> tick_chord \<lparr>velocities = [7, 0, 0, 0, 0, 0, 0, 0, 0], buf = ''RIDE.'', ticksSinceStroke = 2\<rparr>
     = [''BD.'']
   \<and> stroke_phase \<lparr>velocities = [7, 0, 0, 0, 0, 0, 0, 0, 0], buf = ''RIDE.'',
                    ticksSinceStroke = 2\<rparr>
     = \<lparr>velocities = [0, 0, 0, 0, 0, 0, 0, 0, 0], buf = ''RIDE.BD.'', ticksSinceStroke = 2\<rparr>
   \<and> fst (tick \<lparr>velocities = [7, 0, 0, 0, 0, 0, 0, 0, 0], buf = ''RIDE.'', ticksSinceStroke = 2\<rparr>)
     = \<lparr>velocities = [0, 0, 0, 0, 0, 0, 0, 0, 0], buf = ''RIDE.BD.'', ticksSinceStroke = 3\<rparr>"
  by code_simp

text \<open>
  C2, amended. On a tick that appends a chord, the counter is set to 0 at the append only
  if the sentence was empty before it; a sentence that already holds a chord keeps its
  counter. The tick then increments the counter as every tick does: it ends at 1 for
  the first chord of a sentence, and one higher than before for a later chord (unless
  that tick flushes the sentence). The counter therefore counts the ticks since the first
  chord of the sentence.
\<close>

theorem C2_counter_reset_on_first_chord:
  assumes "tick_chord st \<noteq> []"
  shows "ticksSinceStroke (stroke_phase st) = (if buf st = [] then 0 else ticksSinceStroke st)
         \<and> (buf st = [] \<longrightarrow> ticksSinceStroke (fst (tick st)) = 1)
         \<and> (buf st \<noteq> [] \<and> \<not> TICK_THRESHOLD < unat (ticksSinceStroke st) \<longrightarrow>
              ticksSinceStroke (fst (tick st)) = ticksSinceStroke st + 1)"
proof -
  from assms have nh: "needsHandling (velocities st)"
    by (simp add: tick_chord_def split: if_splits)
  then have a: "ticksSinceStroke (stroke_phase st) = (if buf st = [] then 0 else ticksSinceStroke st)"
    by (simp add: stroke_phase_def)
  have "buf st = [] \<Longrightarrow> ticksSinceStroke (fst (tick st)) = 1"
    using a by (simp add: tick_no_flush flushes_iff)
  moreover have "buf st \<noteq> [] \<and> \<not> TICK_THRESHOLD < unat (ticksSinceStroke st) \<Longrightarrow>
              ticksSinceStroke (fst (tick st)) = ticksSinceStroke st + 1"
    using a by (simp add: tick_no_flush flushes_iff)
  ultimately show ?thesis using a by blast
qed

theorem C2_counter_reset_on_first_chord_witness:
  "tick_chord \<lparr>velocities = [7, 0, 0, 0, 0, 0, 0, 0, 0], buf = [], ticksSinceStroke = 200\<rparr> \<noteq> []
   \<and> ticksSinceStroke
        (fst (tick \<lparr>velocities = [7, 0, 0, 0, 0, 0, 0, 0, 0], buf = [], ticksSinceStroke = 200\<rparr>))
       = 1
   \<and> tick_chord \<lparr>velocities = [7, 0, 0, 0, 0, 0, 0, 0, 0], buf = ''RIDE.'', ticksSinceStroke = 2\<rparr>
       \<noteq> []
   \<and> ticksSinceStroke
        (fst (tick \<lparr>velocities = [7, 0, 0, 0, 0, 0, 0, 0, 0], buf = ''RIDE.'',
                     ticksSinceStroke = 2\<rparr>))
       = 3"
proof -
  let ?s = "\<lparr>velocities = [7, 0, 0, 0, 0, 0, 0, 0, 0], buf = [], ticksSinceStroke = 200\<rparr>"
  let ?t = "\<lparr>velocities = [7, 0, 0, 0, 0, 0, 0, 0, 0], buf = ''RIDE.'', ticksSinceStroke = 2\<rparr>"
  have s: "tick_chord ?s \<noteq> []"
    by code_simp
  have t: "tick_chord ?t \<noteq> []"
    by code_simp
  from C2_counter_reset_on_first_chord [OF s] have s': "ticksSinceStroke (fst (tick ?s)) = 1"
    by simp
  from C2_counter_reset_on_first_chord [OF t] have "ticksSinceStroke (fst (tick ?t)) = 2 + 1"
    by (simp add: TICK_THRESHOLD_def)
  then have "ticksSinceStroke (fst (tick ?t)) = 3"
    by simp
  with s t s' show ?thesis by blast
qed

subsection \<open>The pattern table\<close>

lemma scan_map_find:
  "scan_map tbl s = find (\<lambda>e. content e = s) (takeWhile (\<lambda>e. content e \<noteq> []) tbl)"
  by (induction tbl) auto

lemma map_table_patterns: "takeWhile (\<lambda>e. content e \<noteq> []) map_table = butlast map_table"
  by (simp add: map_table_def entry_def)

lemma scan_map_Some: "scan_map tbl s = Some e \<Longrightarrow> content e = s \<and> s \<noteq> []"
  by (induction tbl) (auto split: if_splits)

text \<open>
  C4. The lookup returns the first of the 59 patterns of the table (the entries before
  the terminator) that is equal to the sentence, and fails exactly when none of them is
  equal to it; the terminator, the last entry, has the empty pattern and is never
  returned, not even for the empty sentence. An entry that is returned has the whole
  sentence as its pattern, so \<open>RIDE.\<close> and \<open>RIDE.RIDE.\<close> find their own entries only. On
  success \<^verbatim>\<open>handleSentence\<close> sends the press and the release of the entry's key.
\<close>

theorem C4_lookup_exact_match:
  "scan_map map_table s = find (\<lambda>e. content e = s) (butlast map_table)
   \<and> content (last map_table) = []
   \<and> (\<forall>e \<in> set (butlast map_table). content e \<noteq> [])
   \<and> (scan_map map_table s = None \<longleftrightarrow> (\<forall>e \<in> set (butlast map_table). content e \<noteq> s))
   \<and> (\<forall>e. scan_map map_table s = Some e \<longrightarrow>
          content e = s \<and>
          handleSentence s = (True, [XSendEvent True (keycode e) (modifiers e),
                                     XSendEvent False (keycode e) (modifiers e)]))
   \<and> (scan_map map_table s = None \<longrightarrow> handleSentence s = (False, []))
   \<and> scan_map map_table [] = None
   \<and> scan_map map_table ''RIDE.'' = Some (entry ''RIDE.'' XK_a 0)
   \<and> scan_map map_table ''RIDE.RIDE.'' = Some (entry ''RIDE.RIDE.'' XK_A ShiftMask)"
proof -
  have 1: "scan_map map_table s = find (\<lambda>e. content e = s) (butlast map_table)"
    by (simp add: scan_map_find map_table_patterns)
  have 2: "content (last map_table) = []"
    by (simp add: map_table_def entry_def)
  have 3: "\<forall>e \<in> set (butlast map_table). content e \<noteq> []"
    unfolding map_table_patterns [symmetric] by (auto dest: set_takeWhileD)
  have 4: "scan_map map_table s = None \<longleftrightarrow> (\<forall>e \<in> set (butlast map_table). content e \<noteq> s)"
    unfolding 1 by (auto simp: find_None_iff)
  have 5: "\<forall>e. scan_map map_table s = Some e \<longrightarrow>
          content e = s \<and>
          handleSentence s = (True, [XSendEvent True (keycode e) (modifiers e),
                                     XSendEvent False (keycode e) (modifiers e)])"
    by (auto simp: handleSentence_def dest: scan_map_Some)
  have 6: "scan_map map_table s = None \<longrightarrow> handleSentence s = (False, [])"
    by (simp add: handleSentence_def)
  have 7: "scan_map map_table [] = None"
    by (simp add: map_table_def entry_def)
  have 8: "scan_map map_table ''RIDE.'' = Some (entry ''RIDE.'' XK_a 0)"
    by (simp add: map_table_def entry_def)
  have 9: "scan_map map_table ''RIDE.RIDE.'' = Some (entry ''RIDE.RIDE.'' XK_A ShiftMask)"
    by (simp add: map_table_def entry_def)
  from 1 2 3 4 5 6 7 8 9 show ?thesis by blast
qed

theorem C4_lookup_exact_match_witness:
  "handleSentence ''RIDE.'' = (True, [XSendEvent True XK_a 0, XSendEvent False XK_a 0])
   \<and> handleSentence ''RIDE.RIDE.''
       = (True, [XSendEvent True XK_A ShiftMask, XSendEvent False XK_A ShiftMask])
   \<and> handleSentence ''RIDE.R'' = (False, [])
   \<and> handleSentence ''RIDE'' = (False, [])"
proof -
  have a: "scan_map map_table ''RIDE.'' = Some (entry ''RIDE.'' XK_a 0)"
    using C4_lookup_exact_match [of "''RIDE.''"] by blast
  have "handleSentence ''RIDE.'' =
          (True, [XSendEvent True (keycode (entry ''RIDE.'' XK_a 0)) (modifiers (entry ''RIDE.'' XK_a 0)),
                  XSendEvent False (keycode (entry ''RIDE.'' XK_a 0)) (modifiers (entry ''RIDE.'' XK_a 0))])"
    using C4_lookup_exact_match [of "''RIDE.''"] a by blast
  then have 1: "handleSentence ''RIDE.'' = (True, [XSendEvent True XK_a 0, XSendEvent False XK_a 0])"
    by (simp add: entry_def)
  have b: "scan_map map_table ''RIDE.RIDE.'' = Some (entry ''RIDE.RIDE.'' XK_A ShiftMask)"
    using C4_lookup_exact_match [of "''RIDE.RIDE.''"] by blast
  have "handleSentence ''RIDE.RIDE.'' =
          (True, [XSendEvent True (keycode (entry ''RIDE.RIDE.'' XK_A ShiftMask))
                    (modifiers (entry ''RIDE.RIDE.'' XK_A ShiftMask)),
                  XSendEvent False (keycode (entry ''RIDE.RIDE.'' XK_A ShiftMask))
                    (modifiers (entry ''RIDE.RIDE.'' XK_A ShiftMask))])"
    using C4_lookup_exact_match [of "''RIDE.RIDE.''"] b by blast
  then have 2: "handleSentence ''RIDE.RIDE.''
       = (True, [XSendEvent True XK_A ShiftMask, XSendEvent False XK_A ShiftMask])"
    by (simp add: entry_def)
  have "\<forall>e \<in> set (butlast map_table). content e \<noteq> ''RIDE.R''"
    by (simp add: map_table_def entry_def)
  then have 3: "handleSentence ''RIDE.R'' = (False, [])"
    using C4_lookup_exact_match [of "''RIDE.R''"] by blast
  have "\<forall>e \<in> set (butlast map_table). content e \<noteq> ''RIDE''"
    by (simp add: map_table_def entry_def)
  then have 4: "handleSentence ''RIDE'' = (False, [])"
    using C4_lookup_exact_match [of "''RIDE''"] by blast
  from 1 2 3 4 show ?thesis by blast
qed

subsection \<open>Note events\<close>

lemma pad_cases:
  "i < length drums \<Longrightarrow> i = 0 \<or> i = 1 \<or> i = 2 \<or> i = 3 \<or> i = 4 \<or> i = 5 \<or> i = 6 \<or> i = 7 \<or> i = 8"
  by (simp add: drums_def) arith

lemma strchr_known: "i < length drums \<Longrightarrow> strchr (drums @ behind) (drums ! i) 0 = Some i"
  by (drule pad_cases) (auto simp: drums_def pad_defs)

lemma strchr_NUL:
  "0 \<notin> set xs \<Longrightarrow>
     strchr (xs @ ys) 0 n = Some (n + length xs + length (takeWhile (\<lambda>b. b \<noteq> 0) ys))"
proof (induction xs arbitrary: n)
  case Nil
  show ?case by (induction ys arbitrary: n) auto
next
  case (Cons x xs)
  then show ?case by auto
qed

lemma note_event_known:
  "i < length drums \<Longrightarrow> HIT_THRESHOLD \<le> velocity \<Longrightarrow>
     note_event behind st (drums ! i) velocity =
       Inr (st\<lparr>velocities := (velocities st)[i := velocity]\<rparr>)"
  by (simp add: note_event_def strchr_known)

lemma note_event_soft:
  "velocity < HIT_THRESHOLD \<Longrightarrow> note_event behind st key velocity = Inr st"
  by (simp add: note_event_def not_le [symmetric])

lemma strchr_sound:
  "strchr xs c n = Some k \<Longrightarrow> n \<le> k \<and> (k - n < length xs \<longrightarrow> xs ! (k - n) = c)"
proof (induction xs arbitrary: n)
  case Nil
  then show ?case by (simp split: if_splits)
next
  case (Cons x xs)
  show ?case
  proof (cases "x = c")
    case True
    with Cons.prems show ?thesis by simp
  next
    case False
    with Cons.prems have s: "strchr xs c (Suc n) = Some k"
      by (simp split: if_splits)
    from Cons.IH [OF s] have "Suc n \<le> k" and "k - Suc n < length xs \<longrightarrow> xs ! (k - Suc n) = c"
      by simp_all
    moreover from \<open>Suc n \<le> k\<close> have "k - n = Suc (k - Suc n)"
      by arith
    ultimately show ?thesis by simp
  qed
qed

lemma note_event_changes:
  assumes "note_event behind st key velocity = Inr st'"
  shows "st' = st \<or>
         (HIT_THRESHOLD \<le> velocity \<and>
          (\<exists>i<length drums. drums ! i = key \<and>
                             st' = st\<lparr>velocities := (velocities st)[i := velocity]\<rparr>))"
proof (cases "HIT_THRESHOLD \<le> velocity")
  case False
  with assms show ?thesis by (simp add: note_event_def)
next
  case True
  show ?thesis
  proof (cases "strchr (drums @ behind) key 0")
    case None
    with True assms show ?thesis by (simp add: note_event_def)
  next
    case (Some k)
    with True assms have k: "k < length drums"
      and st': "st' = st\<lparr>velocities := (velocities st)[k := velocity]\<rparr>"
      by (auto simp: note_event_def split: if_splits)
    from strchr_sound [OF Some] k have "drums ! k = key"
      by (simp add: nth_append)
    with True k st' show ?thesis by blast
  qed
qed

lemma note_event_NUL:
  "note_event behind st 0 127 =
     Inl (WriteOutOfBounds (9 + length (takeWhile (\<lambda>b. b \<noteq> 0) behind)))"
proof -
  have "0 \<notin> set drums"
    by (simp add: drums_def pad_defs)
  then have "strchr (drums @ behind) 0 0 =
               Some (0 + length drums + length (takeWhile (\<lambda>b. b \<noteq> 0) behind))"
    by (rule strchr_NUL)
  then show ?thesis
    by (simp add: note_event_def HIT_THRESHOLD_def drums_def)
qed

text \<open>
  C6: the claim fails on the code for a note with key 0 (a MIDI note number like any other)
  and a force at or above the hit threshold. \<^verbatim>\<open>strchr\<close> is used as the test for a known
  pad, but a search for 0 returns the address of the terminator, which lies behind the
  nine bytes of \<^verbatim>\<open>drums\<close> wherever it is; the pointer is not null and the store
  \<^verbatim>\<open>velocities[c - drums] = velocity\<close> goes to an offset of 9 or more, outside the block
  of nine registers. The event is neither stored in a pad's register nor discarded.
\<close>

theorem C6_note_key_zero_stores_out_of_bounds:
  "note_event behind st 0 127 =
     Inl (WriteOutOfBounds (9 + length (takeWhile (\<lambda>b. b \<noteq> 0) behind)))
   \<and> decode [] (initial_state [0, 0, 0, 0, 0, 0, 0, 0, 0]) [0x90, 0, 127]
       = Inl (WriteOutOfBounds 9)"
  by (simp add: note_event_NUL MIDI_TICK_def MIDI_NOTE_ON_def)

text \<open>
  C3: the claim fails on the code at startup. The block of registers comes from
  \<^verbatim>\<open>malloc\<close> and is never cleared before the loop, unlike after a chord and after a
  flush (lines 264 and 276). With a 7 left in the first byte of the block, the first tick
  of the input finds a chord for BD although no note was received.
\<close>

theorem C3_registers_not_cleared_at_startup:
  "velocities (initial_state [7, 0, 0, 0, 0, 0, 0, 0, 0]) = [7, 0, 0, 0, 0, 0, 0, 0, 0]
   \<and> decode [] (initial_state [7, 0, 0, 0, 0, 0, 0, 0, 0]) [MIDI_TICK]
       = Inr (\<lparr>velocities = [0, 0, 0, 0, 0, 0, 0, 0, 0], buf = ''BD.'', ticksSinceStroke = 1\<rparr>, [])"
  by code_simp

text \<open>
  C9: the claim fails on the code, by the defect of C3. Two runs on the same input
  (seven ticks and no note) differ when the uncleared block of registers differs: one
  sends a space, the other nothing.
\<close>

theorem C9_runs_differ_on_same_input:
  "decode [] (initial_state [7, 0, 0, 0, 0, 0, 0, 0, 0]) (replicate 7 MIDI_TICK)
     = Inr (\<lparr>velocities = [0, 0, 0, 0, 0, 0, 0, 0, 0], buf = [], ticksSinceStroke = 0\<rparr>,
            [XSendEvent True XK_space 0, XSendEvent False XK_space 0])
   \<and> decode [] (initial_state [0, 0, 0, 0, 0, 0, 0, 0, 0]) (replicate 7 MIDI_TICK)
     = Inr (\<lparr>velocities = [0, 0, 0, 0, 0, 0, 0, 0, 0], buf = [], ticksSinceStroke = 7\<rparr>, [])"
  by code_simp

subsection \<open>Decay of a strike into a chord\<close>

lemma hit_is_stroke: "HIT_THRESHOLD \<le> v \<Longrightarrow> STROKE_THRESHOLD \<le> v"
  by (simp add: HIT_THRESHOLD_def STROKE_THRESHOLD_def word_le_nat_alt)

lemma struck_single:
  "i < length drums \<Longrightarrow> STROKE_THRESHOLD \<le> v \<Longrightarrow>
     struck ((replicate (length drums) 0)[i := v]) [0..<length drums] = [drumNames ! i]"
  by (drule pad_cases)
     (auto simp: struck_def drums_def drumNames_def upt_rec STROKE_THRESHOLD_def)

subsection \<open>Order of the strikes\<close>

lemma note_event_shape:
  assumes "note_event behind st0 k f = Inr s0"
  shows "(\<forall>st. note_event behind st k f = Inr st) \<or>
         (\<exists>i<length drums. drums ! i = k \<and>
            (\<forall>st. note_event behind st k f = Inr (st\<lparr>velocities := (velocities st)[i := f]\<rparr>)))"
proof (cases "HIT_THRESHOLD \<le> f")
  case False
  then show ?thesis
    by (simp add: note_event_def)
next
  case True
  show ?thesis
  proof (cases "strchr (drums @ behind) k 0")
    case None
    with True show ?thesis
      by (simp add: note_event_def)
  next
    case (Some j)
    with True assms have j: "j < length drums"
      by (simp add: note_event_def split: if_splits)
    with strchr_sound [OF Some] have "drums ! j = k"
      by (simp add: nth_append)
    moreover have "\<forall>st. note_event behind st k f =
                    Inr (st\<lparr>velocities := (velocities st)[j := f]\<rparr>)"
      using True Some j by (simp add: note_event_def)
    ultimately show ?thesis using j by blast
  qed
qed

lemma note_events_commute:
  assumes ne: "k1 \<noteq> k2" and 1: "note_event behind st k1 f1 = Inr s1"
    and 2: "note_event behind s1 k2 f2 = Inr s12"
  shows "\<exists>s2. note_event behind st k2 f2 = Inr s2 \<and> note_event behind s2 k1 f1 = Inr s12"
proof -
  from note_event_shape [OF 1] show ?thesis
  proof (elim disjE exE conjE)
    assume a1: "\<forall>st. note_event behind st k1 f1 = Inr st"
    with 1 have "s1 = st" by simp
    with 2 have "note_event behind st k2 f2 = Inr s12" by simp
    moreover from a1 have "note_event behind s12 k1 f1 = Inr s12" by simp
    ultimately show ?thesis by blast
  next
    fix i1
    assume i1: "i1 < length drums" "drums ! i1 = k1"
      and b1: "\<forall>st. note_event behind st k1 f1 =
                 Inr (st\<lparr>velocities := (velocities st)[i1 := f1]\<rparr>)"
    with 1 have s1: "s1 = st\<lparr>velocities := (velocities st)[i1 := f1]\<rparr>" by simp
    from note_event_shape [OF 2] show ?thesis
    proof (elim disjE exE conjE)
      assume a2: "\<forall>st. note_event behind st k2 f2 = Inr st"
      with 2 have "s12 = s1" by simp
      with 1 have "note_event behind st k1 f1 = Inr s12" by simp
      moreover from a2 have "note_event behind st k2 f2 = Inr st" by simp
      ultimately show ?thesis by blast
    next
      fix i2
      assume i2: "i2 < length drums" "drums ! i2 = k2"
        and b2: "\<forall>st. note_event behind st k2 f2 =
                   Inr (st\<lparr>velocities := (velocities st)[i2 := f2]\<rparr>)"
      from i1 i2 ne have d: "i1 \<noteq> i2" by blast
      let ?s2 = "st\<lparr>velocities := (velocities st)[i2 := f2]\<rparr>"
      from b2 have x: "note_event behind st k2 f2 = Inr ?s2" by simp
      from b2 2 s1 have "s12 = st\<lparr>velocities := (velocities st)[i1 := f1, i2 := f2]\<rparr>"
        by simp
      also have "(velocities st)[i1 := f1, i2 := f2] = (velocities st)[i2 := f2, i1 := f1]"
        using d by (rule list_update_swap)
      finally have "note_event behind ?s2 k1 f1 = Inr s12"
        using b1 by simp
      with x show ?thesis by blast
    qed
  qed
qed

subsection \<open>BD and SNARE struck together\<close>

lemma drums_BD: "drums ! 0 = BD"
  by (simp add: drums_def)

lemma drums_SNARE: "drums ! 4 = SNARE"
  by (simp add: drums_def)

lemma struck_BD_SNARE:
  "STROKE_THRESHOLD \<le> a \<Longrightarrow> STROKE_THRESHOLD \<le> b \<Longrightarrow>
     struck [a, 0, 0, 0, b, 0, 0, 0, 0] [0..<length drums] = [''BD'', ''SNARE'']"
  by (simp add: struck_def drums_def drumNames_def upt_rec STROKE_THRESHOLD_def)

lemma zeros: "replicate (length drums) (0 :: byte) = [0, 0, 0, 0, 0, 0, 0, 0, 0]"
  by (simp add: drums_def)

lemma upd0: "[a, b, c, d, e, f, g, h, i][0 := x] = [x, b, c, d, e, f, g, h, i]"
  by simp

lemma upd4: "[a, b, c, d, e, f, g, h, i][4 := x] = [a, b, c, d, x, f, g, h, i]"
  by (simp add: eval_nat_numeral)

lemma strike_BD_SNARE:
  assumes z: "velocities st = replicate (length drums) 0"
    and 1: "HIT_THRESHOLD \<le> f1" and 2: "HIT_THRESHOLD \<le> f2"
  shows "note_event behind st BD f1 = Inr (st\<lparr>velocities := [f1, 0, 0, 0, 0, 0, 0, 0, 0]\<rparr>)"
    and "note_event behind (st\<lparr>velocities := [f1, 0, 0, 0, 0, 0, 0, 0, 0]\<rparr>) SNARE f2
           = Inr (st\<lparr>velocities := [f1, 0, 0, 0, f2, 0, 0, 0, 0]\<rparr>)"
    and "note_event behind st SNARE f2 = Inr (st\<lparr>velocities := [0, 0, 0, 0, f2, 0, 0, 0, 0]\<rparr>)"
    and "note_event behind (st\<lparr>velocities := [0, 0, 0, 0, f2, 0, 0, 0, 0]\<rparr>) BD f1
           = Inr (st\<lparr>velocities := [f1, 0, 0, 0, f2, 0, 0, 0, 0]\<rparr>)"
proof -
  have i0: "(0 :: nat) < length drums" and i4: "(4 :: nat) < length drums"
    by (simp_all add: drums_def)
  have v: "velocities st = [0, 0, 0, 0, 0, 0, 0, 0, 0]"
    unfolding z by (rule zeros)
  have "note_event behind st (drums ! 0) f1 = Inr (st\<lparr>velocities := (velocities st)[0 := f1]\<rparr>)"
    using i0 1 by (rule note_event_known)
  then show "note_event behind st BD f1 = Inr (st\<lparr>velocities := [f1, 0, 0, 0, 0, 0, 0, 0, 0]\<rparr>)"
    unfolding drums_BD v upd0 .
  have "note_event behind st (drums ! 4) f2 = Inr (st\<lparr>velocities := (velocities st)[4 := f2]\<rparr>)"
    using i4 2 by (rule note_event_known)
  then show "note_event behind st SNARE f2 = Inr (st\<lparr>velocities := [0, 0, 0, 0, f2, 0, 0, 0, 0]\<rparr>)"
    unfolding drums_SNARE v upd4 .
  let ?a = "st\<lparr>velocities := [f1, 0, 0, 0, 0, 0, 0, 0, 0]\<rparr>"
  have "note_event behind ?a (drums ! 4) f2 = Inr (?a\<lparr>velocities := (velocities ?a)[4 := f2]\<rparr>)"
    using i4 2 by (rule note_event_known)
  moreover have "?a\<lparr>velocities := (velocities ?a)[4 := f2]\<rparr>
                   = st\<lparr>velocities := [f1, 0, 0, 0, f2, 0, 0, 0, 0]\<rparr>"
    by (simp add: upd4)
  ultimately show "note_event behind ?a SNARE f2
                     = Inr (st\<lparr>velocities := [f1, 0, 0, 0, f2, 0, 0, 0, 0]\<rparr>)"
    unfolding drums_SNARE by (rule trans [OF _ arg_cong [where f = Inr]])
  let ?b = "st\<lparr>velocities := [0, 0, 0, 0, f2, 0, 0, 0, 0]\<rparr>"
  have "note_event behind ?b (drums ! 0) f1 = Inr (?b\<lparr>velocities := (velocities ?b)[0 := f1]\<rparr>)"
    using i0 1 by (rule note_event_known)
  moreover have "?b\<lparr>velocities := (velocities ?b)[0 := f1]\<rparr>
                   = st\<lparr>velocities := [f1, 0, 0, 0, f2, 0, 0, 0, 0]\<rparr>"
    by simp
  ultimately show "note_event behind ?b BD f1
                     = Inr (st\<lparr>velocities := [f1, 0, 0, 0, f2, 0, 0, 0, 0]\<rparr>)"
    unfolding drums_BD by (rule trans [OF _ arg_cong [where f = Inr]])
qed

subsection \<open>The buffers of the source are large enough\<close>

text \<open>
  The model keeps \<^verbatim>\<open>strokeBuf\<close> and \<^verbatim>\<open>buf\<close> as lists without a bound, while the source
  gives each 1024 bytes. From startup on, whatever the input, a chord has at most 52
  characters and the sentence is flushed before it exceeds 364, so no \<^verbatim>\<open>strcat\<close> of the
  source writes past its buffer and the lists are a faithful model.
\<close>

lemma stroke_fold_length:
  "length (fst (fold (stroke_step vs) idx (sb, e)))
     \<le> length sb + sum_list (map (\<lambda>i. Suc (length (drumNames ! i))) idx)"
proof (induction idx arbitrary: sb e)
  case Nil
  show ?case by simp
next
  case (Cons i idx)
  show ?case
  proof (cases "STROKE_THRESHOLD \<le> vs ! i")
    case True
    from Cons.IH [of "(if \<not> e then sb @ '','' else sb) @ drumNames ! i" False] True
    show ?thesis by (cases e) (simp_all add: stroke_step_pair)
  next
    case False
    from Cons.IH [of sb e] False
    show ?thesis by (simp add: stroke_step_pair)
  qed
qed

lemma handleStroke_length: "length (handleStroke vs (length drums)) \<le> 52"
proof -
  have "sum_list (map (\<lambda>i. Suc (length (drumNames ! i))) [0..<length drums]) = 51"
    by (simp add: drums_def drumNames_def upt_rec)
  with stroke_fold_length [of vs "[0..<length drums]" "[]" True]
  show ?thesis by (simp add: handleStroke_def stroke_loop_def)
qed

lemma unat_succ_small: "unat (t :: byte) \<le> 5 \<Longrightarrow> unat (t + 1) = unat t + 1"
proof -
  assume "unat t \<le> 5"
  then have "unat t + unat (1 :: byte) < 2 ^ LENGTH(8)"
    by simp
  then have "unat (t + 1) = unat t + unat (1 :: byte)"
    by (simp only: unat_add_lem)
  then show ?thesis by simp
qed

lemma stroke_phase_length:
  "length (buf (stroke_phase st)) \<le> length (buf st) + 52"
  using handleStroke_length [of "velocities st"] by (simp add: stroke_phase_def)

lemma sentence_bounded_tick:
  assumes "sentence_bounded st"
  shows "sentence_bounded (fst (tick st))"
proof (cases "flushes (halve_phase (stroke_phase st))")
  case True
  then show ?thesis by (simp add: tick_flush sentence_bounded_def)
next
  case nf: False
  then have t: "fst (tick st) =
       \<lparr>velocities = map (\<lambda>v. v div 2) (velocities (stroke_phase st)),
         buf = buf (stroke_phase st),
         ticksSinceStroke = ticksSinceStroke (stroke_phase st) + 1\<rparr>"
    by (simp add: tick_no_flush)
  show ?thesis
  proof (cases "buf st = []")
    case True
    show ?thesis
    proof (cases "needsHandling (velocities st)")
      case True
      with \<open>buf st = []\<close> have "ticksSinceStroke (stroke_phase st) = 0"
        and "length (buf (stroke_phase st)) \<le> 52"
        using handleStroke_length [of "velocities st"] by (simp_all add: stroke_phase_def)
      then show ?thesis by (simp add: t sentence_bounded_def)
    next
      case False
      with \<open>buf st = []\<close> have "buf (stroke_phase st) = []"
        by (simp add: stroke_phase_def)
      then show ?thesis by (simp add: t sentence_bounded_def)
    qed
  next
    case False
    with assms have b: "1 \<le> unat (ticksSinceStroke st)"
      "length (buf st) \<le> 52 * unat (ticksSinceStroke st)"
      by (simp_all add: sentence_bounded_def)
    from False nf have s: "unat (ticksSinceStroke st) \<le> 5"
      by (simp add: flushes_iff TICK_THRESHOLD_def)
    from False have c: "ticksSinceStroke (stroke_phase st) = ticksSinceStroke st"
      by (simp add: stroke_phase_def)
    from s have u: "unat (ticksSinceStroke st + 1) = unat (ticksSinceStroke st) + 1"
      by (rule unat_succ_small)
    from b(2) stroke_phase_length [of st]
    have "length (buf (stroke_phase st)) \<le> 52 * (unat (ticksSinceStroke st) + 1)"
      by simp
    with s u show ?thesis by (simp add: t c sentence_bounded_def)
  qed
qed

lemma sentence_bounded_note:
  "sentence_bounded st \<Longrightarrow> note_event behind st key velocity = Inr st' \<Longrightarrow>
     sentence_bounded st'"
  by (drule note_event_changes) (auto simp: sentence_bounded_def)

lemma sentence_bounded_decode:
  "sentence_bounded st \<Longrightarrow> decode behind st input = Inr (st', out) \<Longrightarrow>
     sentence_bounded st'"
proof (induction behind st input arbitrary: st' out rule: decode.induct)
  case (1 behind st)
  then show ?case by simp
next
  case (2 behind st ch input)
  show ?case
  proof (cases "ch = MIDI_TICK")
    case True
    obtain s1 o1 where t: "tick st = (s1, o1)"
      by (cases "tick st")
    with "2.prems"(1) sentence_bounded_tick [of st] have b: "sentence_bounded s1"
      by simp
    from "2.prems"(2) True t obtain o2 where "decode behind s1 input = Inr (st', o2)"
      by (auto simp: emit_def split: sum.splits)
    with "2.IH"(1) [OF True t [symmetric] b] show ?thesis .
  next
    case nt: False
    show ?thesis
    proof (cases "ch AND 0xf0 = MIDI_NOTE_ON")
      case False
      with nt "2.prems"(2) have "decode behind st input = Inr (st', out)"
        by simp
      with "2.IH"(3) [OF nt False "2.prems"(1)] show ?thesis .
    next
      case True
      show ?thesis
      proof (cases input)
        case Nil
        with nt True "2.prems" show ?thesis by simp
      next
        case (Cons key r)
        show ?thesis
        proof (cases r)
          case Nil
          with Cons nt True "2.prems" show ?thesis by simp
        next
          case c2: (Cons velocity rest)
          show ?thesis
          proof (cases "note_event behind st key velocity")
            case (Inl f)
            with Cons c2 nt True "2.prems"(2) show ?thesis by simp
          next
            case (Inr s1)
            with "2.prems"(1) have b: "sentence_bounded s1"
              by (rule sentence_bounded_note)
            from Inr Cons c2 nt True "2.prems"(2) have "decode behind s1 rest = Inr (st', out)"
              by simp
            with "2.IH"(2) [OF nt True Cons c2 Inr b] show ?thesis .
          qed
        qed
      qed
    qed
  qed
qed

lemma buffers_fit:
  assumes "decode behind (initial_state heap) input = Inr (st, out)"
  shows "length (handleStroke (velocities st) (length drums)) < 1024"
    and "length (buf st) < 1024"
    and "length (buf (stroke_phase st)) < 1024"
proof -
  have "sentence_bounded (initial_state heap)"
    by (simp add: sentence_bounded_def initial_state_def)
  from this assms have b: "sentence_bounded st"
    by (rule sentence_bounded_decode)
  show "length (handleStroke (velocities st) (length drums)) < 1024"
    using handleStroke_length [of "velocities st"] by simp
  from b have l: "length (buf st) \<le> 312"
    by (auto simp: sentence_bounded_def)
  then show "length (buf st) < 1024"
    by simp
  from l stroke_phase_length [of st] show "length (buf (stroke_phase st)) < 1024"
    by simp
qed

subsection \<open>A strike while a sentence is pending\<close>

lemma halvings_bounds:
  "STROKE_THRESHOLD \<le> v \<Longrightarrow>
     5 * 2 ^ halvings v \<le> unat v \<and> unat v < 10 * 2 ^ halvings v"
  using unsigned_less [of v, where 'a = nat]
  by (simp add: halvings_def STROKE_THRESHOLD_def word_le_nat_alt word_less_nat_alt)

lemma halvings_hit: "HIT_THRESHOLD \<le> v \<Longrightarrow> 1 \<le> halvings v \<and> halvings v \<le> 5"
  by (simp add: halvings_def HIT_THRESHOLD_def word_le_nat_alt word_less_nat_alt)

lemma in_window:
  "(STROKE_THRESHOLD \<le> v \<and> v div 2 < STROKE_THRESHOLD) \<longleftrightarrow> (5 \<le> unat v \<and> unat v < 10)"
  by (auto simp: STROKE_THRESHOLD_def word_le_nat_alt word_less_nat_alt unat_div)

lemma needsHandling_single:
  "i < length drums \<Longrightarrow>
     needsHandling ((replicate (length drums) 0)[i := v]) \<longleftrightarrow> 5 \<le> unat v \<and> unat v < 10"
  unfolding in_window [symmetric] needsHandling_iff
  by (auto simp: nth_list_update STROKE_THRESHOLD_def)

lemma quiet_single:
  "i < length drums \<Longrightarrow> 5 * 2 ^ h \<le> unat v \<Longrightarrow> unat v < 10 * 2 ^ h \<Longrightarrow>
     quiet_for h ((replicate (length drums) 0)[i := v])"
proof (induction h arbitrary: v)
  case 0
  then show ?case by (simp add: needsHandling_single)
next
  case (Suc h)
  from Suc.prems have "5 * 2 ^ h \<le> unat (v div 2)" and "unat (v div 2) < 10 * 2 ^ h"
    by (simp_all add: unat_div)
  with Suc.IH [OF Suc.prems(1)]
  have "quiet_for h ((replicate (length drums) 0)[i := v div 2])" .
  moreover have "map (\<lambda>v. v div 2) ((replicate (length drums) 0)[i := v])
                   = (replicate (length drums) 0)[i := v div 2]"
    by (simp add: map_update)
  moreover have "\<not> (unat v < 10)"
  proof -
    have "(10 :: nat) \<le> 10 * 2 ^ h" by simp
    moreover from Suc.prems have "10 * 2 ^ h \<le> unat v" by simp
    ultimately show ?thesis by linarith
  qed
  ultimately show ?case using Suc.prems(1)
    by (simp add: needsHandling_single)
qed

lemma needsHandling_two:
  "needsHandling [a, 0, 0, 0, b, 0, 0, 0, 0] \<longleftrightarrow>
     (5 \<le> unat a \<and> unat a < 10) \<or> (5 \<le> unat b \<and> unat b < 10)"
  unfolding in_window [symmetric]
  by (auto simp: needsHandling_def drums_def upt_rec STROKE_THRESHOLD_def)

lemma quiet_two:
  "5 * 2 ^ h \<le> unat a \<Longrightarrow> 5 * 2 ^ h \<le> unat b \<Longrightarrow>
   unat a < 10 * 2 ^ h \<or> unat b < 10 * 2 ^ h \<Longrightarrow>
     quiet_for h [a, 0, 0, 0, b, 0, 0, 0, 0]"
proof (induction h arbitrary: a b)
  case 0
  then show ?case by (auto simp: needsHandling_two)
next
  case (Suc h)
  from Suc.prems have "5 * 2 ^ h \<le> unat (a div 2)" and "5 * 2 ^ h \<le> unat (b div 2)"
    and "unat (a div 2) < 10 * 2 ^ h \<or> unat (b div 2) < 10 * 2 ^ h"
    by (auto simp: unat_div)
  then have "quiet_for h [a div 2, 0, 0, 0, b div 2, 0, 0, 0, 0]"
    by (rule Suc.IH)
  moreover have "\<not> unat a < 10" and "\<not> unat b < 10"
  proof -
    have "(10 :: nat) \<le> 10 * 2 ^ h" by simp
    moreover from Suc.prems have "10 * 2 ^ h \<le> unat a" and "10 * 2 ^ h \<le> unat b"
      by simp_all
    ultimately show "\<not> unat a < 10" and "\<not> unat b < 10" by linarith+
  qed
  ultimately show ?case
    by (simp add: needsHandling_two)
qed

lemma tick_quiet:
  assumes "\<not> needsHandling (velocities st)"
    and "buf st = [] \<or> unat (ticksSinceStroke st) \<le> 5"
  shows "fst (tick st) = st\<lparr>velocities := map (\<lambda>v. v div 2) (velocities st),
                             ticksSinceStroke := ticksSinceStroke st + 1\<rparr>"
proof -
  from assms(1) have s: "stroke_phase st = st"
    by (simp add: stroke_phase_def)
  from assms(2) have "\<not> flushes (halve_phase (stroke_phase st))"
    by (auto simp: flushes_iff TICK_THRESHOLD_def)
  then show ?thesis
    by (simp add: tick_no_flush s)
qed

lemma quiet_silent:
  "length (velocities st) = length drums \<Longrightarrow> quiet_for k (velocities st) \<Longrightarrow> j \<le> k \<Longrightarrow>
     chords j st = []"
proof (induction j arbitrary: k st)
  case 0
  show ?case by simp
next
  case (Suc j)
  then obtain k' where k: "k = Suc k'"
    by (cases k) auto
  with Suc.prems have nh: "\<not> needsHandling (velocities st)"
    and q: "quiet_for k' (map (\<lambda>v. v div 2) (velocities st))" and j: "j \<le> k'"
    by simp_all
  have "chords j (fst (tick st)) = []"
  proof (cases "buf st \<noteq> [] \<and> TICK_THRESHOLD < unat (ticksSinceStroke st)")
    case True
    then have "velocities (fst (tick st)) = replicate (length drums) 0"
      by (simp add: tick_velocities)
    then show ?thesis by (rule chords_zero)
  next
    case False
    with nh have v: "velocities (fst (tick st)) = map (\<lambda>v. v div 2) (velocities st)"
      by (auto simp: tick_velocities)
    with Suc.prems(1) have "length (velocities (fst (tick st))) = length drums"
      by simp
    moreover from q v have "quiet_for k' (velocities (fst (tick st)))"
      by simp
    ultimately show ?thesis using j by (rule Suc.IH)
  qed
  with nh show ?case by (simp add: tick_chord_def)
qed

lemma quiet_chord:
  assumes "length (velocities st) = length drums" and "quiet_for k (velocities st)"
    and "buf st = [] \<or> unat (ticksSinceStroke st) + k \<le> 6"
  shows "chords (Suc k + m) st =
           [join '','' (struck (velocities st) [0..<length drums]) @ ''.'']"
  using assms
proof (induction k arbitrary: st)
  case 0
  then have nh: "needsHandling (velocities st)"
    by simp
  then have "velocities (fst (tick st)) = replicate (length drums) 0"
    by (simp add: tick_velocities)
  then have "chords m (fst (tick st)) = []"
    by (rule chords_zero)
  with nh show ?case by (simp add: tick_chord_eq)
next
  case (Suc k)
  let ?st' = "fst (tick st)"
  from Suc.prems(2) have nh: "\<not> needsHandling (velocities st)"
    and q: "quiet_for k (map (\<lambda>v. v div 2) (velocities st))"
    by simp_all
  from Suc.prems(3) have c: "buf st = [] \<or> unat (ticksSinceStroke st) \<le> 5"
    by auto
  with nh have t: "?st' = st\<lparr>velocities := map (\<lambda>v. v div 2) (velocities st),
                               ticksSinceStroke := ticksSinceStroke st + 1\<rparr>"
    by (rule tick_quiet)
  from t Suc.prems(1) have len: "length (velocities ?st') = length drums"
    by simp
  from t q have q': "quiet_for k (velocities ?st')"
    by simp
  have c': "buf ?st' = [] \<or> unat (ticksSinceStroke ?st') + k \<le> 6"
  proof (cases "buf st = []")
    case True
    with t show ?thesis by simp
  next
    case False
    with Suc.prems(3) have s: "unat (ticksSinceStroke st) + Suc k \<le> 6"
      by simp
    then have "unat (ticksSinceStroke st) \<le> 5"
      by simp
    then have "unat (ticksSinceStroke st + 1) = unat (ticksSinceStroke st) + 1"
      by (rule unat_succ_small)
    with s t show ?thesis by simp
  qed
  from Suc.IH [OF len q' c']
  have "chords (Suc k + m) ?st' =
          [join '','' (struck (velocities ?st') [0..<length drums]) @ ''.'']" .
  also have "velocities ?st' = map (\<lambda>v. v div 2) (velocities st)"
    using t by simp
  also have "struck (map (\<lambda>v. v div 2) (velocities st)) [0..<length drums] =
             struck (velocities st) [0..<length drums]"
    using Suc.prems(1) nh by (rule struck_halved)
  finally show ?case using nh by (simp add: tick_chord_eq)
qed

lemma quiet_lost:
  assumes "length (velocities st) = length drums" and "quiet_for (Suc k) (velocities st)"
    and "buf st \<noteq> []" and "6 < unat (ticksSinceStroke st) + Suc k"
  shows "chords n st = []"
  using assms
proof (induction k arbitrary: st n)
  case 0
  then have nh: "\<not> needsHandling (velocities st)"
    by simp
  from 0 have "buf st \<noteq> [] \<and> TICK_THRESHOLD < unat (ticksSinceStroke st)"
    by (simp add: TICK_THRESHOLD_def)
  then have "velocities (fst (tick st)) = replicate (length drums) 0"
    by (simp add: tick_velocities)
  then have z: "\<And>j. chords j (fst (tick st)) = []"
    by (rule chords_zero)
  show ?case
    by (cases n) (simp_all add: tick_chord_def nh z)
next
  case (Suc k)
  from Suc.prems(2) have nh: "\<not> needsHandling (velocities st)"
    and q: "quiet_for (Suc k) (map (\<lambda>v. v div 2) (velocities st))"
    by simp_all
  have z: "\<And>j. chords j (fst (tick st)) = []"
  proof (cases "TICK_THRESHOLD < unat (ticksSinceStroke st)")
    case True
    with Suc.prems(3) have "velocities (fst (tick st)) = replicate (length drums) 0"
      by (simp add: tick_velocities)
    then show "\<And>j. chords j (fst (tick st)) = []"
      by (rule chords_zero)
  next
    case False
    then have s: "unat (ticksSinceStroke st) \<le> 5"
      by (simp add: TICK_THRESHOLD_def)
    let ?st' = "fst (tick st)"
    from nh s have t: "?st' = st\<lparr>velocities := map (\<lambda>v. v div 2) (velocities st),
                                 ticksSinceStroke := ticksSinceStroke st + 1\<rparr>"
      by (simp add: tick_quiet)
    from s have u: "unat (ticksSinceStroke st + 1) = unat (ticksSinceStroke st) + 1"
      by (rule unat_succ_small)
    from t Suc.prems(1) have len: "length (velocities ?st') = length drums"
      by simp
    from t q have q': "quiet_for (Suc k) (velocities ?st')"
      by simp
    from t Suc.prems(3) have b: "buf ?st' \<noteq> []"
      by simp
    from t u Suc.prems(4) have c: "6 < unat (ticksSinceStroke ?st') + Suc k"
      by simp
    fix j
    from len q' b c show "chords j ?st' = []"
      by (rule Suc.IH)
  qed
  show ?case
    by (cases n) (simp_all add: tick_chord_def nh z)
qed

lemma strike_outcome:
  assumes len: "length (velocities s) = length drums"
    and q: "quiet_for h (velocities s)" and h: "1 \<le> h"
  shows "\<forall>n\<le>h. chords n s = []"
    and "buf s = [] \<or> unat (ticksSinceStroke s) + h \<le> 6 \<longrightarrow>
           (\<forall>n>h. chords n s = [join '','' (struck (velocities s) [0..<length drums]) @ ''.''])"
    and "buf s \<noteq> [] \<and> 6 < unat (ticksSinceStroke s) + h \<longrightarrow> (\<forall>n. chords n s = [])"
proof -
  show "\<forall>n\<le>h. chords n s = []"
    using quiet_silent [OF len q] by blast
  show "buf s = [] \<or> unat (ticksSinceStroke s) + h \<le> 6 \<longrightarrow>
           (\<forall>n>h. chords n s = [join '','' (struck (velocities s) [0..<length drums]) @ ''.''])"
  proof (intro impI allI)
    fix n
    assume c: "buf s = [] \<or> unat (ticksSinceStroke s) + h \<le> 6" and "h < n"
    then obtain m where n: "n = Suc h + m"
      by (metis Suc_leI le_iff_add)
    show "chords n s = [join '','' (struck (velocities s) [0..<length drums]) @ ''.'']"
      unfolding n using len q c by (rule quiet_chord)
  qed
  from h obtain k where k: "h = Suc k"
    by (cases h) auto
  show "buf s \<noteq> [] \<and> 6 < unat (ticksSinceStroke s) + h \<longrightarrow> (\<forall>n. chords n s = [])"
    using quiet_lost [OF len q [unfolded k]] unfolding k by blast
qed

text \<open>
  C8 as stated fails: zeroed registers are not enough when a sentence is pending. RIDE
  is struck with force 127 and seven ticks pass: the registers are zero again, the
  sentence is \<open>RIDE.\<close> and the counter is 3. BD is now struck with force 127 and no other
  pad is. The register of BD needs four halvings to come down to 7, but the fourth tick
  flushes the sentence and zeroes the registers: no chord is ever made of the strike.
\<close>

theorem C8_strike_lost_counterexample:
  "decode [] (initial_state [0, 0, 0, 0, 0, 0, 0, 0, 0]) ([0x90, RIDE, 127] @ replicate 7 MIDI_TICK)
     = Inr (\<lparr>velocities = [0, 0, 0, 0, 0, 0, 0, 0, 0], buf = ''RIDE.'', ticksSinceStroke = 3\<rparr>, [])
   \<and> note_event [] \<lparr>velocities = [0, 0, 0, 0, 0, 0, 0, 0, 0], buf = ''RIDE.'',
                     ticksSinceStroke = 3\<rparr> BD 127
     = Inr \<lparr>velocities = [127, 0, 0, 0, 0, 0, 0, 0, 0], buf = ''RIDE.'', ticksSinceStroke = 3\<rparr>
   \<and> ticks 4 \<lparr>velocities = [127, 0, 0, 0, 0, 0, 0, 0, 0], buf = ''RIDE.'', ticksSinceStroke = 3\<rparr>
     = \<lparr>velocities = [0, 0, 0, 0, 0, 0, 0, 0, 0], buf = [], ticksSinceStroke = 0\<rparr>
   \<and> chords 4 \<lparr>velocities = [127, 0, 0, 0, 0, 0, 0, 0, 0], buf = ''RIDE.'', ticksSinceStroke = 3\<rparr>
     = []
   \<and> chords 40 \<lparr>velocities = [127, 0, 0, 0, 0, 0, 0, 0, 0], buf = ''RIDE.'', ticksSinceStroke = 3\<rparr>
     = []"
  by code_simp

text \<open>
  C8, amended. Let all registers be zero and let a known pad be struck with a force at or
  above the hit threshold, with no other note after it. The strike is stored in the pad's
  register and leaves the sentence and the counter as they are. Let \<open>h\<close> be the number of
  halvings that bring the force into the window from 5 to 9, that is
  \<open>5 * 2 ^ h \<le> force < 10 * 2 ^ h\<close>; \<open>h\<close> is between 1 and 5. The first \<open>h\<close> ticks emit no
  chord. If the sentence is empty at the strike, or the counter at the strike plus \<open>h\<close>
  is at most 6, then tick \<open>h + 1\<close> emits the chord of that pad alone and no tick after it
  emits another: exactly one chord. If a sentence is pending and the counter plus \<open>h\<close> is
  above 6, the flush zeroes the registers before the strike reaches the window and no
  chord is emitted at all. In no case is there a second chord or a chord with another pad.
\<close>

theorem C8_single_strike_one_chord:
  assumes "velocities st = replicate (length drums) 0"
    and "i < length drums" and "HIT_THRESHOLD \<le> force"
  shows "\<exists>st'. note_event behind st (drums ! i) force = Inr st'
           \<and> velocities st' = (replicate (length drums) 0)[i := force]
           \<and> buf st' = buf st \<and> ticksSinceStroke st' = ticksSinceStroke st
           \<and> 5 * 2 ^ halvings force \<le> unat force \<and> unat force < 10 * 2 ^ halvings force
           \<and> 1 \<le> halvings force \<and> halvings force \<le> 5
           \<and> (\<forall>n\<le>halvings force. chords n st' = [])
           \<and> (\<forall>n. chords n st' = [] \<or> chords n st' = [drumNames ! i @ ''.''])
           \<and> (buf st = [] \<or> unat (ticksSinceStroke st) + halvings force \<le> 6 \<longrightarrow>
                (\<forall>n>halvings force. chords n st' = [drumNames ! i @ ''.'']))
           \<and> (buf st \<noteq> [] \<and> 6 < unat (ticksSinceStroke st) + halvings force \<longrightarrow>
                (\<forall>n. chords n st' = []))"
proof -
  let ?st' = "st\<lparr>velocities := (velocities st)[i := force]\<rparr>"
  let ?h = "halvings force"
  from assms(3) have f: "STROKE_THRESHOLD \<le> force"
    by (rule hit_is_stroke)
  have n: "note_event behind st (drums ! i) force = Inr ?st'"
    using assms(2,3) by (rule note_event_known)
  have v: "velocities ?st' = (replicate (length drums) 0)[i := force]"
    using assms(1) by simp
  then have len: "length (velocities ?st') = length drums"
    by simp
  have b: "buf ?st' = buf st" and t: "ticksSinceStroke ?st' = ticksSinceStroke st"
    by simp_all
  note hb = halvings_bounds [OF f]
  note hh = halvings_hit [OF assms(3)]
  have s: "struck (velocities ?st') [0..<length drums] = [drumNames ! i]"
    unfolding v using assms(2) f by (rule struck_single)
  have q: "quiet_for ?h (velocities ?st')"
    unfolding v using assms(2) hb [THEN conjunct1] hb [THEN conjunct2] by (rule quiet_single)
  have o1: "\<forall>n\<le>halvings force. chords n ?st' = []"
    by (rule strike_outcome(1) [OF len q hh [THEN conjunct1]])
  have j: "join '','' (struck (velocities ?st') [0..<length drums]) @ ''.'' = drumNames ! i @ ''.''"
    by (simp only: s join.simps)
  have o2: "buf st = [] \<or> unat (ticksSinceStroke st) + halvings force \<le> 6 \<longrightarrow>
                (\<forall>n>halvings force. chords n ?st' = [drumNames ! i @ ''.''])"
    using strike_outcome(2) [OF len q hh [THEN conjunct1]] unfolding j b t .
  have o3: "buf st \<noteq> [] \<and> 6 < unat (ticksSinceStroke st) + halvings force \<longrightarrow>
                (\<forall>n. chords n ?st' = [])"
    using strike_outcome(3) [OF len q hh [THEN conjunct1]] unfolding b t .
  have one: "\<forall>n. chords n ?st' = [] \<or> chords n ?st' = [drumNames ! i @ ''.'']"
    using chords_at_most_one [OF len] unfolding j by (rule allI)
  show ?thesis
    apply (rule exI [of _ ?st'])
    apply (intro conjI)
               apply (rule n)
              apply (rule v)
             apply (rule b)
            apply (rule t)
           apply (rule hb [THEN conjunct1])
          apply (rule hb [THEN conjunct2])
         apply (rule hh [THEN conjunct1])
        apply (rule hh [THEN conjunct2])
       apply (rule o1)
      apply (rule one)
     apply (rule o2)
    apply (rule o3)
    done
qed

theorem C8_single_strike_one_chord_witness:
  "chords 5 \<lparr>velocities = [0, 0, 0, 0, 0, 0, 127, 0, 0], buf = ''RIDE.'', ticksSinceStroke = 2\<rparr>
     = [''RIDE.'']
   \<and> chords 40 \<lparr>velocities = [0, 0, 0, 0, 0, 0, 127, 0, 0], buf = ''RIDE.'',
                   ticksSinceStroke = 3\<rparr>
     = []
   \<and> chords 6 \<lparr>velocities = [0, 0, 0, 0, 0, 0, 127, 0, 0], buf = [], ticksSinceStroke = 9\<rparr>
     = [''RIDE.'']"
proof -
  let ?z2 = "\<lparr>velocities = [0, 0, 0, 0, 0, 0, 0, 0, 0], buf = ''RIDE.'', ticksSinceStroke = 2\<rparr>"
  let ?z3 = "\<lparr>velocities = [0, 0, 0, 0, 0, 0, 0, 0, 0], buf = ''RIDE.'', ticksSinceStroke = 3\<rparr>"
  let ?z9 = "\<lparr>velocities = [0, 0, 0, 0, 0, 0, 0, 0, 0], buf = [], ticksSinceStroke = 9\<rparr>"
  let ?s2 = "\<lparr>velocities = [0, 0, 0, 0, 0, 0, 127, 0, 0], buf = ''RIDE.'', ticksSinceStroke = 2\<rparr>"
  let ?s3 = "\<lparr>velocities = [0, 0, 0, 0, 0, 0, 127, 0, 0], buf = ''RIDE.'', ticksSinceStroke = 3\<rparr>"
  let ?s9 = "\<lparr>velocities = [0, 0, 0, 0, 0, 0, 127, 0, 0], buf = [], ticksSinceStroke = 9\<rparr>"
  have i: "(6 :: nat) < length drums"
    by (simp add: drums_def)
  have f: "HIT_THRESHOLD \<le> 127"
    by (simp add: HIT_THRESHOLD_def)
  have h: "halvings 127 = 4"
    by (simp add: halvings_def)
  have d: "drums ! 6 = RIDE" and m: "drumNames ! 6 = ''RIDE''"
    by (simp_all add: drums_def drumNames_def)
  have z2: "velocities ?z2 = replicate (length drums) 0"
    by (simp add: drums_def)
  have z3: "velocities ?z3 = replicate (length drums) 0"
    by (simp add: drums_def)
  have z9: "velocities ?z9 = replicate (length drums) 0"
    by (simp add: drums_def)
  have e2: "note_event [] ?z2 RIDE 127 = Inr ?s2"
    by code_simp
  have e3: "note_event [] ?z3 RIDE 127 = Inr ?s3"
    by code_simp
  have e9: "note_event [] ?z9 RIDE 127 = Inr ?s9"
    by code_simp
  from C8_single_strike_one_chord [OF z2 i f, of "[]"]
  obtain a where "note_event [] ?z2 (drums ! 6) 127 = Inr a"
    and "buf ?z2 = [] \<or> unat (ticksSinceStroke ?z2) + halvings 127 \<le> 6 \<longrightarrow>
           (\<forall>n>halvings 127. chords n a = [drumNames ! 6 @ ''.''])"
    by blast
  with e2 have 1: "chords 5 ?s2 = [''RIDE.'']"
    by (simp add: h d m)
  from C8_single_strike_one_chord [OF z3 i f, of "[]"]
  obtain b where "note_event [] ?z3 (drums ! 6) 127 = Inr b"
    and "buf ?z3 \<noteq> [] \<and> 6 < unat (ticksSinceStroke ?z3) + halvings 127 \<longrightarrow>
           (\<forall>n. chords n b = [])"
    by blast
  with e3 have 2: "chords 40 ?s3 = []"
    by (simp add: h d)
  from C8_single_strike_one_chord [OF z9 i f, of "[]"]
  obtain c where "note_event [] ?z9 (drums ! 6) 127 = Inr c"
    and "buf ?z9 = [] \<or> unat (ticksSinceStroke ?z9) + halvings 127 \<le> 6 \<longrightarrow>
           (\<forall>n>halvings 127. chords n c = [drumNames ! 6 @ ''.''])"
    by blast
  with e9 have 3: "chords 6 ?s9 = [''RIDE.'']"
    by (simp add: h d m)
  from 1 2 3 show ?thesis by blast
qed

lemma quiet_BD_SNARE:
  assumes 1: "HIT_THRESHOLD \<le> f1" and 2: "HIT_THRESHOLD \<le> f2"
  shows "quiet_for (halvings (min f1 f2)) [f1, 0, 0, 0, f2, 0, 0, 0, 0]"
    and "1 \<le> halvings (min f1 f2)" and "halvings (min f1 f2) \<le> 5"
proof -
  let ?m = "min f1 f2"
  from 1 2 have hm: "HIT_THRESHOLD \<le> ?m"
    by simp
  then have "STROKE_THRESHOLD \<le> ?m"
    by (rule hit_is_stroke)
  then have lo: "5 * 2 ^ halvings ?m \<le> unat ?m" and hi: "unat ?m < 10 * 2 ^ halvings ?m"
    using halvings_bounds [of ?m] by simp_all
  have "unat ?m \<le> unat f1" and "unat ?m \<le> unat f2"
    by (simp_all add: word_le_nat_alt [symmetric])
  with lo have a: "5 * 2 ^ halvings ?m \<le> unat f1" and b: "5 * 2 ^ halvings ?m \<le> unat f2"
    by simp_all
  have "?m = f1 \<or> ?m = f2"
    by (simp add: min_def)
  with hi have c: "unat f1 < 10 * 2 ^ halvings ?m \<or> unat f2 < 10 * 2 ^ halvings ?m"
    by metis
  from a b c show "quiet_for (halvings ?m) [f1, 0, 0, 0, f2, 0, 0, 0, 0]"
    by (rule quiet_two)
  from halvings_hit [OF hm] show "1 \<le> halvings ?m" and "halvings ?m \<le> 5"
    by simp_all
qed

text \<open>
  C7 as stated fails in its "always": the two strikes need not yield a chord. RIDE is
  struck with force 127 and seven ticks pass: the sentence is \<open>RIDE.\<close>, the counter is 3
  and the registers are zero. BD and SNARE are now struck with force 127 between the same
  two ticks, in either order. Both registers need four halvings to reach 7, but the
  fourth tick flushes the sentence and zeroes them: no chord \<open>BD,SNARE.\<close> is ever made.
\<close>

theorem C7_strikes_lost_counterexample:
  "decode [] (initial_state [0, 0, 0, 0, 0, 0, 0, 0, 0]) ([0x90, RIDE, 127] @ replicate 7 MIDI_TICK)
     = Inr (\<lparr>velocities = [0, 0, 0, 0, 0, 0, 0, 0, 0], buf = ''RIDE.'', ticksSinceStroke = 3\<rparr>, [])
   \<and> decode [] \<lparr>velocities = [0, 0, 0, 0, 0, 0, 0, 0, 0], buf = ''RIDE.'', ticksSinceStroke = 3\<rparr>
         [0x90, BD, 127, 0x90, SNARE, 127]
     = Inr (\<lparr>velocities = [127, 0, 0, 0, 127, 0, 0, 0, 0], buf = ''RIDE.'',
              ticksSinceStroke = 3\<rparr>, [])
   \<and> decode [] \<lparr>velocities = [0, 0, 0, 0, 0, 0, 0, 0, 0], buf = ''RIDE.'', ticksSinceStroke = 3\<rparr>
         [0x90, SNARE, 127, 0x90, BD, 127]
     = Inr (\<lparr>velocities = [127, 0, 0, 0, 127, 0, 0, 0, 0], buf = ''RIDE.'',
              ticksSinceStroke = 3\<rparr>, [])
   \<and> chords 40 \<lparr>velocities = [127, 0, 0, 0, 127, 0, 0, 0, 0], buf = ''RIDE.'',
                   ticksSinceStroke = 3\<rparr>
     = []
   \<and> decode [] \<lparr>velocities = [127, 0, 0, 0, 127, 0, 0, 0, 0], buf = ''RIDE.'',
                  ticksSinceStroke = 3\<rparr> (replicate 40 MIDI_TICK)
     = Inr (\<lparr>velocities = [0, 0, 0, 0, 0, 0, 0, 0, 0], buf = [], ticksSinceStroke = 36\<rparr>,
            [XSendEvent True XK_a 0, XSendEvent False XK_a 0])"
  by code_simp

lemma BD_SNARE_outcome:
  assumes z: "velocities st = replicate (length drums) 0"
    and 1: "HIT_THRESHOLD \<le> f1" and 2: "HIT_THRESHOLD \<le> f2"
  shows "\<exists>s1 s2 s.
           note_event behind st BD f1 = Inr s1 \<and> note_event behind s1 SNARE f2 = Inr s \<and>
           note_event behind st SNARE f2 = Inr s2 \<and> note_event behind s2 BD f1 = Inr s \<and>
           buf s = buf st \<and> ticksSinceStroke s = ticksSinceStroke st \<and>
           handleStroke (velocities s) (length drums) = ''BD,SNARE.'' \<and>
           5 * 2 ^ halvings (min f1 f2) \<le> unat (min f1 f2) \<and>
           unat (min f1 f2) < 10 * 2 ^ halvings (min f1 f2) \<and>
           1 \<le> halvings (min f1 f2) \<and> halvings (min f1 f2) \<le> 5 \<and>
           (\<forall>n\<le>halvings (min f1 f2). chords n s = []) \<and>
           (\<forall>n. chords n s = [] \<or> chords n s = [''BD,SNARE.'']) \<and>
           (buf st = [] \<or> unat (ticksSinceStroke st) + halvings (min f1 f2) \<le> 6 \<longrightarrow>
              (\<forall>n>halvings (min f1 f2). chords n s = [''BD,SNARE.''])) \<and>
           (buf st \<noteq> [] \<and> 6 < unat (ticksSinceStroke st) + halvings (min f1 f2) \<longrightarrow>
              (\<forall>n. chords n s = []))"
proof -
  let ?a = "st\<lparr>velocities := [f1, 0, 0, 0, 0, 0, 0, 0, 0]\<rparr>"
  let ?b = "st\<lparr>velocities := [0, 0, 0, 0, f2, 0, 0, 0, 0]\<rparr>"
  let ?s = "st\<lparr>velocities := [f1, 0, 0, 0, f2, 0, 0, 0, 0]\<rparr>"
  let ?h = "halvings (min f1 f2)"
  note n = strike_BD_SNARE [OF z 1 2, of behind]
  have v: "velocities ?s = [f1, 0, 0, 0, f2, 0, 0, 0, 0]"
    by simp
  have len: "length (velocities ?s) = length drums"
    by (simp add: drums_def)
  have b: "buf ?s = buf st" and t: "ticksSinceStroke ?s = ticksSinceStroke st"
    by simp_all
  have j: "join '','' (struck (velocities ?s) [0..<length drums]) @ ''.'' = ''BD,SNARE.''"
    unfolding v struck_BD_SNARE [OF hit_is_stroke [OF 1] hit_is_stroke [OF 2]] by simp
  have h: "handleStroke (velocities ?s) (length drums) = ''BD,SNARE.''"
    unfolding handleStroke_eq by (rule j)
  from 1 2 have "STROKE_THRESHOLD \<le> min f1 f2"
    by (simp add: hit_is_stroke)
  note hb = halvings_bounds [OF this]
  note q = quiet_BD_SNARE [OF 1 2]
  have q': "quiet_for ?h (velocities ?s)"
    unfolding v by (rule q(1))
  have o1: "\<forall>n\<le>?h. chords n ?s = []"
    by (rule strike_outcome(1) [OF len q' q(2)])
  have one: "\<forall>n. chords n ?s = [] \<or> chords n ?s = [''BD,SNARE.'']"
    using chords_at_most_one [OF len] unfolding j by (rule allI)
  have o2: "buf st = [] \<or> unat (ticksSinceStroke st) + ?h \<le> 6 \<longrightarrow>
              (\<forall>n>?h. chords n ?s = [''BD,SNARE.''])"
    using strike_outcome(2) [OF len q' q(2)] unfolding j b t .
  have o3: "buf st \<noteq> [] \<and> 6 < unat (ticksSinceStroke st) + ?h \<longrightarrow> (\<forall>n. chords n ?s = [])"
    using strike_outcome(3) [OF len q' q(2)] unfolding b t .
  show ?thesis
    apply (rule exI [of _ ?a])
    apply (rule exI [of _ ?b])
    apply (rule exI [of _ ?s])
    apply (intro conjI)
                  apply (rule n(1))
                 apply (rule n(2))
                apply (rule n(3))
               apply (rule n(4))
              apply (rule b)
             apply (rule t)
            apply (rule h)
           apply (rule hb [THEN conjunct1])
          apply (rule hb [THEN conjunct2])
         apply (rule q(2))
        apply (rule q(3))
       apply (rule o1)
      apply (rule one)
     apply (rule o2)
    apply (rule o3)
    done
qed

text \<open>
  C7, amended. The chord text is a function of the registers alone: the names of the pads
  whose register is at least the stroke threshold, in the order of the array \<^verbatim>\<open>drums\<close>,
  joined by commas and closed by a period. Two note events with different keys can be
  swapped without changing the state they lead to. So BD and SNARE, struck in either
  order from zeroed registers with forces at or above the hit threshold, lead to the same
  state, and the only chord that state can yield is \<open>BD,SNARE.\<close>, never twice. Whether it
  yields it depends on the sentence: with \<open>h\<close> the number of halvings that bring the
  weaker of the two forces into the window from 5 to 9, the first \<open>h\<close> ticks emit nothing;
  if the sentence is empty at the strikes, or the counter plus \<open>h\<close> is at most 6, tick
  \<open>h + 1\<close> emits \<open>BD,SNARE.\<close> and that is the only chord; if a sentence is pending and the
  counter plus \<open>h\<close> is above 6, the flush zeroes the registers first and no chord is
  emitted. A tick appends its chord to the sentence as it is, with nothing between the
  chords.
\<close>

theorem C7_chord_order_independent:
  "handleStroke vs (length drums) =
     join '','' (map (\<lambda>i. drumNames ! i)
       (filter (\<lambda>i. STROKE_THRESHOLD \<le> vs ! i) [0..<length drums])) @ ''.''
   \<and> (ka \<noteq> kb \<longrightarrow> note_event behind st ka fa = Inr sa \<longrightarrow>
        note_event behind sa kb fb = Inr sab \<longrightarrow>
        (\<exists>sb. note_event behind st kb fb = Inr sb \<and> note_event behind sb ka fa = Inr sab))
   \<and> (velocities st = replicate (length drums) 0 \<longrightarrow>
        HIT_THRESHOLD \<le> fa \<longrightarrow> HIT_THRESHOLD \<le> fb \<longrightarrow>
        (\<exists>s1 s2 s.
           note_event behind st BD fa = Inr s1 \<and> note_event behind s1 SNARE fb = Inr s \<and>
           note_event behind st SNARE fb = Inr s2 \<and> note_event behind s2 BD fa = Inr s \<and>
           buf s = buf st \<and> ticksSinceStroke s = ticksSinceStroke st \<and>
           handleStroke (velocities s) (length drums) = ''BD,SNARE.'' \<and>
           5 * 2 ^ halvings (min fa fb) \<le> unat (min fa fb) \<and>
           unat (min fa fb) < 10 * 2 ^ halvings (min fa fb) \<and>
           1 \<le> halvings (min fa fb) \<and> halvings (min fa fb) \<le> 5 \<and>
           (\<forall>n\<le>halvings (min fa fb). chords n s = []) \<and>
           (\<forall>n. chords n s = [] \<or> chords n s = [''BD,SNARE.'']) \<and>
           (buf st = [] \<or> unat (ticksSinceStroke st) + halvings (min fa fb) \<le> 6 \<longrightarrow>
              (\<forall>n>halvings (min fa fb). chords n s = [''BD,SNARE.''])) \<and>
           (buf st \<noteq> [] \<and> 6 < unat (ticksSinceStroke st) + halvings (min fa fb) \<longrightarrow>
              (\<forall>n. chords n s = []))))
   \<and> buf (stroke_phase st) = buf st @ concat (tick_chord st)"
proof (intro conjI impI)
  show "handleStroke vs (length drums) =
     join '','' (map (\<lambda>i. drumNames ! i)
       (filter (\<lambda>i. STROKE_THRESHOLD \<le> vs ! i) [0..<length drums])) @ ''.''"
    by (simp add: handleStroke_eq struck_def)
next
  assume "ka \<noteq> kb" and "note_event behind st ka fa = Inr sa"
    and "note_event behind sa kb fb = Inr sab"
  then show "\<exists>sb. note_event behind st kb fb = Inr sb \<and> note_event behind sb ka fa = Inr sab"
    by (rule note_events_commute)
next
  assume "velocities st = replicate (length drums) 0"
    and "HIT_THRESHOLD \<le> fa" and "HIT_THRESHOLD \<le> fb"
  then show "\<exists>s1 s2 s.
           note_event behind st BD fa = Inr s1 \<and> note_event behind s1 SNARE fb = Inr s \<and>
           note_event behind st SNARE fb = Inr s2 \<and> note_event behind s2 BD fa = Inr s \<and>
           buf s = buf st \<and> ticksSinceStroke s = ticksSinceStroke st \<and>
           handleStroke (velocities s) (length drums) = ''BD,SNARE.'' \<and>
           5 * 2 ^ halvings (min fa fb) \<le> unat (min fa fb) \<and>
           unat (min fa fb) < 10 * 2 ^ halvings (min fa fb) \<and>
           1 \<le> halvings (min fa fb) \<and> halvings (min fa fb) \<le> 5 \<and>
           (\<forall>n\<le>halvings (min fa fb). chords n s = []) \<and>
           (\<forall>n. chords n s = [] \<or> chords n s = [''BD,SNARE.'']) \<and>
           (buf st = [] \<or> unat (ticksSinceStroke st) + halvings (min fa fb) \<le> 6 \<longrightarrow>
              (\<forall>n>halvings (min fa fb). chords n s = [''BD,SNARE.''])) \<and>
           (buf st \<noteq> [] \<and> 6 < unat (ticksSinceStroke st) + halvings (min fa fb) \<longrightarrow>
              (\<forall>n. chords n s = []))"
    by (rule BD_SNARE_outcome)
next
  show "buf (stroke_phase st) = buf st @ concat (tick_chord st)"
    by (rule stroke_phase_buf)
qed

theorem C7_chord_order_independent_witness:
  "note_event [] \<lparr>velocities = [0, 0, 0, 0, 0, 0, 0, 0, 0], buf = [], ticksSinceStroke = 0\<rparr> BD 100
     = Inr \<lparr>velocities = [100, 0, 0, 0, 0, 0, 0, 0, 0], buf = [], ticksSinceStroke = 0\<rparr>
   \<and> note_event [] \<lparr>velocities = [100, 0, 0, 0, 0, 0, 0, 0, 0], buf = [], ticksSinceStroke = 0\<rparr>
        SNARE 20
     = Inr \<lparr>velocities = [100, 0, 0, 0, 20, 0, 0, 0, 0], buf = [], ticksSinceStroke = 0\<rparr>
   \<and> note_event [] \<lparr>velocities = [0, 0, 0, 0, 0, 0, 0, 0, 0], buf = [], ticksSinceStroke = 0\<rparr>
        SNARE 20
     = Inr \<lparr>velocities = [0, 0, 0, 0, 20, 0, 0, 0, 0], buf = [], ticksSinceStroke = 0\<rparr>
   \<and> note_event [] \<lparr>velocities = [0, 0, 0, 0, 20, 0, 0, 0, 0], buf = [], ticksSinceStroke = 0\<rparr>
        BD 100
     = Inr \<lparr>velocities = [100, 0, 0, 0, 20, 0, 0, 0, 0], buf = [], ticksSinceStroke = 0\<rparr>
   \<and> chords 2 \<lparr>velocities = [100, 0, 0, 0, 20, 0, 0, 0, 0], buf = [], ticksSinceStroke = 0\<rparr>
     = []
   \<and> chords 3 \<lparr>velocities = [100, 0, 0, 0, 20, 0, 0, 0, 0], buf = [], ticksSinceStroke = 0\<rparr>
     = [''BD,SNARE.'']"
proof -
  let ?z = "\<lparr>velocities = [0, 0, 0, 0, 0, 0, 0, 0, 0], buf = [], ticksSinceStroke = 0\<rparr>"
  let ?a = "\<lparr>velocities = [100, 0, 0, 0, 0, 0, 0, 0, 0], buf = [], ticksSinceStroke = 0\<rparr>"
  let ?b = "\<lparr>velocities = [0, 0, 0, 0, 20, 0, 0, 0, 0], buf = [], ticksSinceStroke = 0\<rparr>"
  let ?c = "\<lparr>velocities = [100, 0, 0, 0, 20, 0, 0, 0, 0], buf = [], ticksSinceStroke = 0\<rparr>"
  have 1: "note_event [] ?z BD 100 = Inr ?a"
    by code_simp
  have 2: "note_event [] ?a SNARE 20 = Inr ?c"
    by code_simp
  have 3: "note_event [] ?z SNARE 20 = Inr ?b"
    by code_simp
  have 4: "note_event [] ?b BD 100 = Inr ?c"
    by code_simp
  have z: "velocities ?z = replicate (length drums) 0"
    by (simp add: drums_def)
  have f1: "HIT_THRESHOLD \<le> 100" and f2: "HIT_THRESHOLD \<le> 20"
    by (simp_all add: HIT_THRESHOLD_def)
  have h: "halvings (min 100 20) = 2"
    by (simp add: halvings_def)
  from C7_chord_order_independent [where behind = "[]" and st = ?z and fa = 100 and fb = 20]
    z f1 f2
  obtain s1 s where a: "note_event [] ?z BD 100 = Inr s1"
    and b: "note_event [] s1 SNARE 20 = Inr s"
    and q: "\<forall>n\<le>halvings (min 100 20). chords n s = []"
    and c: "buf ?z = [] \<or> unat (ticksSinceStroke ?z) + halvings (min 100 20) \<le> 6 \<longrightarrow>
              (\<forall>n>halvings (min 100 20). chords n s = [''BD,SNARE.''])"
    by blast
  from a 1 have "s1 = ?a" by simp
  with b 2 have s: "s = ?c" by simp
  from q have 5: "chords 2 ?c = []"
    unfolding h s by simp
  from c have 6: "chords 3 ?c = [''BD,SNARE.'']"
    unfolding h s by simp
  from 1 2 3 4 5 6 show ?thesis by blast
qed

end
